theory Spec2Isabelle
  imports Main "HOL-Library.Multiset"
begin

section \<open>Subject ordering: SubjectTopologicalSorter.ts\<close>

subsection \<open>Objects and their identities\<close>

text \<open>
  JavaScript compares objects by identity (\<open>indexOf\<close>, \<open>===\<close>), and entity metadatas
  refer to one another through their relations, so every object is a reference into a
  table of objects: two references are equal exactly when they are the same object.
\<close>

type_synonym mref = nat
type_synonym sref = nat
type_synonym oref = nat

text \<open>
  Modelled from the spec: the class \<open>RelationMetadata\<close> is imported by the sorter and is
  not among the source files. Its fields are the two the sorter reads.
\<close>

record RelationMetadata =
  isNullable :: bool
  inverseEntityMetadata :: mref

text \<open>
  Modelled from the spec: the class \<open>EntityMetadata\<close> is not among the source files. Its
  fields are the three the sorter reads; \<open>inheritanceTree\<close> holds the \<open>name\<close> of each
  class of the tree, in order.
\<close>

record EntityMetadata =
  targetName :: string
  inheritanceTree :: "string list"
  relationsWithJoinColumns :: "RelationMetadata list"

text \<open>
  Modelled from the spec: the class \<open>Subject\<close> is not among the source files. Its fields
  are the three the sorter reads. \<open>metadata\<close> is the owning entity metadata, which the
  specification lets be absent for junction-table-only operations: \<open>None\<close> is
  \<open>undefined\<close>. \<open>entity\<close> and \<open>databaseEntity\<close> are objects or undefined, and an
  object is truthy.
\<close>

record Subject =
  metadata :: "mref option"
  entity :: "oref option"
  databaseEntity :: "oref option"

text \<open>The objects a sorter works on, by reference.\<close>

record objects =
  metadataAt :: "mref \<Rightarrow> EntityMetadata"
  subjectAt :: "sref \<Rightarrow> Subject"

subsection \<open>Array primitives\<close>

text \<open>\<open>arr.indexOf(x)\<close>: the first index of \<open>x\<close>, or \<open>-1\<close>.\<close>

fun indexOf :: "'a list \<Rightarrow> 'a \<Rightarrow> int" where
  "indexOf [] x = -1"
| "indexOf (y # ys) x =
     (if y = x then 0 else (let k = indexOf ys x in if k < 0 then -1 else k + 1))"

text \<open>
  \<open>arr.splice(start, 1)\<close>, read as the array it leaves: a negative \<open>start\<close> counts from
  the end (so \<open>-1\<close> removes the last element), and a \<open>start\<close> past the end removes nothing.
\<close>

definition splice1 :: "'a list \<Rightarrow> int \<Rightarrow> 'a list" where
  "splice1 xs start =
     (let n = int (length xs);
          s = (if start < 0 then max (n + start) 0 else min start n)
      in take (nat s) xs @ drop (Suc (nat s)) xs)"

text \<open>
  \<open>arr[i] = v\<close> on an array with holes (\<open>None\<close>): inside the array the slot is
  overwritten, past the end the array is extended with holes, and a negative index sets a
  property that is no element of the array.
\<close>

definition array_set :: "'a option list \<Rightarrow> int \<Rightarrow> 'a \<Rightarrow> 'a option list" where
  "array_set xs i v =
     (if i < 0 then xs
      else if i < int (length xs) then xs[nat i := Some v]
      else xs @ replicate (nat i - length xs) None @ [Some v])"

subsection \<open>Errors\<close>

text \<open>
  What the sorter throws: the two \<open>TypeORMError\<close>s of \<open>toposort\<close>, and the \<open>TypeError\<close>
  JavaScript raises when a property of \<open>undefined\<close> is read, which here is the metadata
  of a subject that has none.
\<close>

datatype error = CyclicDependency string | UnknownNode string | TypeError


subsection \<open>toposort\<close>

type_synonym edge = "string \<times> string"

fun uniqueNodes_from :: "string list \<Rightarrow> edge list \<Rightarrow> string list" where
  "uniqueNodes_from res [] = res"
| "uniqueNodes_from res (edge # arr) =
     (let res1 = (if indexOf res (fst edge) < 0 then res @ [fst edge] else res);
          res2 = (if indexOf res1 (snd edge) < 0 then res1 @ [snd edge] else res1)
      in uniqueNodes_from res2 arr)"

definition uniqueNodes :: "edge list \<Rightarrow> string list" where
  "uniqueNodes arr = uniqueNodes_from [] arr"

text \<open>The variables \<open>cursor\<close>, \<open>sorted\<close> and \<open>visited\<close> that \<open>visit\<close> closes over.\<close>

record toposort_state =
  cursor :: int
  sorted_arr :: "string option list"
  visited :: "int set"

text \<open>Two facts the termination of \<open>visit\<close> rests on.\<close>

lemma indexOf_nonneg_iff: "0 \<le> indexOf xs x \<longleftrightarrow> x \<in> set xs"
  by (induction xs) (auto simp: Let_def)

lemma indexOf_neg_iff: "indexOf xs x < 0 \<longleftrightarrow> x \<notin> set xs"
  using indexOf_nonneg_iff [of xs x] by auto

lemma card_unvisited_less:
  assumes "node \<in> set nodes" and "node \<notin> set preds"
  shows "card (set nodes - set (preds @ [node])) < card (set nodes - set preds)"
proof -
  have "set nodes - set (preds @ [node]) \<subset> set nodes - set preds"
    using assms by auto
  then show ?thesis
    by (simp add: psubset_card_mono)
qed

text \<open>
  \<open>visit(node, i, predecessors)\<close>, and its \<open>do ... while (i)\<close> loop over the outgoing edges
  from the last one down to the first as \<open>visit_outgoing\<close> on the reversed list.
\<close>

function visit :: "edge list \<Rightarrow> string list \<Rightarrow> string \<Rightarrow> int \<Rightarrow> string list \<Rightarrow>
      toposort_state \<Rightarrow> error + toposort_state"
  and visit_outgoing :: "edge list \<Rightarrow> string list \<Rightarrow> edge list \<Rightarrow> string list \<Rightarrow>
      toposort_state \<Rightarrow> error + toposort_state"
where
  "visit edges nodes node i predecessors st =
     (if indexOf predecessors node \<ge> 0 then Inl (CyclicDependency node)
      else if indexOf nodes node < 0 then Inl (UnknownNode node)
      else if i \<in> visited st then Inr st
      else
        (case visit_outgoing edges nodes (rev (filter (\<lambda>edge. fst edge = node) edges))
                (predecessors @ [node]) (st\<lparr>visited := insert i (visited st)\<rparr>) of
           Inl e \<Rightarrow> Inl e
         | Inr st' \<Rightarrow>
             Inr (st'\<lparr>cursor := cursor st' - 1,
                      sorted_arr := array_set (sorted_arr st') (cursor st' - 1) node\<rparr>)))"
| "visit_outgoing edges nodes [] preds st = Inr st"
| "visit_outgoing edges nodes (edge # outgoing) preds st =
     (case visit edges nodes (snd edge) (indexOf nodes (snd edge)) preds st of
        Inl e \<Rightarrow> Inl e
      | Inr st' \<Rightarrow> visit_outgoing edges nodes outgoing preds st')"
  by pat_completeness auto

termination
proof (relation "inv_image (less_than <*lex*> less_than)
    (\<lambda>x. case x of
       Inl (edges, nodes, node, i, preds, st) \<Rightarrow> (card (set nodes - set preds), 0::nat)
     | Inr (edges, nodes, outgoing, preds, st) \<Rightarrow>
         (card (set nodes - set preds), Suc (length outgoing)))", goal_cases)
  case 1
  show ?case by (intro wf_inv_image wf_lex_prod wf_less_than)
next
  case (2 edges nodes node i predecessors st)
  then have "node \<in> set nodes" "node \<notin> set predecessors"
    using indexOf_nonneg_iff [of predecessors node] indexOf_neg_iff [of nodes node] by auto
  then show ?case
    using card_unvisited_less [of node nodes predecessors] by simp
next
  case 3
  then show ?case by simp
next
  case 4
  then show ?case by simp
qed


text \<open>The loop \<open>while (i--) if (!visited.has(i)) visit(nodes[i], i, [])\<close>.\<close>

fun visit_roots :: "edge list \<Rightarrow> string list \<Rightarrow> nat \<Rightarrow> toposort_state \<Rightarrow>
      error + toposort_state" where
  "visit_roots edges nodes 0 st = Inr st"
| "visit_roots edges nodes (Suc i) st =
     (if int i \<in> visited st then visit_roots edges nodes i st
      else
        (case visit edges nodes (nodes ! i) (int i) [] st of
           Inl e \<Rightarrow> Inl e
         | Inr st' \<Rightarrow> visit_roots edges nodes i st'))"

definition toposort :: "edge list \<Rightarrow> error + string option list" where
  "toposort edges =
     (let nodes = uniqueNodes edges;
          st = \<lparr>cursor = int (length nodes),
                sorted_arr = replicate (length nodes) None,
                visited = {}\<rparr>
      in case visit_roots edges nodes (length nodes) st of
           Inl e \<Rightarrow> Inl e
         | Inr st' \<Rightarrow> Inr (sorted_arr st'))"

subsection \<open>The sorter\<close>

datatype direction = Insert | Delete

text \<open>
  The fields of a \<open>SubjectTopologicalSorter\<close>: \<open>subjects\<close> is the content of the array the
  sorter owns, \<open>metadatas\<close> the unique metadatas of the subjects it was built from;
  \<open>undefined\<close> is one of them when a subject has no metadata.
\<close>

record sorter =
  subjects :: "sref list"
  metadatas :: "mref option list"

definition getUniqueMetadatas :: "objects \<Rightarrow> sref list \<Rightarrow> mref option list" where
  "getUniqueMetadatas objs subjs =
     foldl (\<lambda>ms subject.
              if indexOf ms (metadata (subjectAt objs subject)) = -1
              then ms @ [metadata (subjectAt objs subject)] else ms)
       [] subjs"

definition constructor :: "objects \<Rightarrow> sref list \<Rightarrow> sorter" where
  "constructor objs subjs =
     \<lparr>subjects = subjs, metadatas = getUniqueMetadatas objs subjs\<rparr>"

definition removeAlreadySorted :: "sref list \<Rightarrow> sref list \<Rightarrow> sref list" where
  "removeAlreadySorted this_subjects subjs =
     foldl (\<lambda>remaining subject. splice1 remaining (indexOf remaining subject))
       this_subjects subjs"

text \<open>
  The two \<open>reduce\<close> calls over \<open>this.metadatas\<close>. Reading \<open>metadata.relationsWithJoinColumns\<close>
  throws when \<open>metadata\<close> is \<open>undefined\<close>, and nothing catches it.
\<close>

definition getNonNullableDependencies :: "objects \<Rightarrow> mref option list \<Rightarrow> error + edge list" where
  "getNonNullableDependencies objs ms =
     foldl (\<lambda>acc metadata.
              case acc of
                Inl e \<Rightarrow> Inl e
              | Inr dependencies \<Rightarrow>
                  (case metadata of
                     None \<Rightarrow> Inl TypeError
                   | Some m \<Rightarrow>
                       Inr (foldl (\<lambda>deps relation.
                                     if isNullable relation then deps
                                     else deps @ [(targetName (metadataAt objs m),
                                                   targetName (metadataAt objs (inverseEntityMetadata relation)))])
                              dependencies (relationsWithJoinColumns (metadataAt objs m)))))
       (Inr []) ms"

definition getDependencies :: "objects \<Rightarrow> mref option list \<Rightarrow> error + edge list" where
  "getDependencies objs ms =
     foldl (\<lambda>acc metadata.
              case acc of
                Inl e \<Rightarrow> Inl e
              | Inr dependencies \<Rightarrow>
                  (case metadata of
                     None \<Rightarrow> Inl TypeError
                   | Some m \<Rightarrow>
                       Inr (foldl (\<lambda>deps relation.
                                     if inverseEntityMetadata relation = m then deps
                                     else deps @ [(targetName (metadataAt objs m),
                                                   targetName (metadataAt objs (inverseEntityMetadata relation)))])
                              dependencies (relationsWithJoinColumns (metadataAt objs m)))))
       (Inr []) ms"

text \<open>
  The three filters of \<open>sort\<close>: the one of the junction subjects, the one of the
  non-nullable pass, and the one of the second pass. The last two read
  \<open>subject.metadata.targetName\<close>, which throws when the subject has no metadata.
\<close>

definition isJunction :: "objects \<Rightarrow> sref \<Rightarrow> bool" where
  "isJunction objs subject \<longleftrightarrow>
     entity (subjectAt objs subject) = None \<and> databaseEntity (subjectAt objs subject) = None"

definition matchesTargetOrAncestor :: "objects \<Rightarrow> string \<Rightarrow> sref \<Rightarrow> error + bool" where
  "matchesTargetOrAncestor objs sortedEntityTarget subject =
     (case metadata (subjectAt objs subject) of
        None \<Rightarrow> Inl TypeError
      | Some m \<Rightarrow>
          Inr (targetName (metadataAt objs m) = sortedEntityTarget \<or>
               list_ex (\<lambda>s. s = sortedEntityTarget) (inheritanceTree (metadataAt objs m))))"

definition matchesTarget :: "objects \<Rightarrow> string \<Rightarrow> sref \<Rightarrow> error + bool" where
  "matchesTarget objs sortedEntityTarget subject =
     (case metadata (subjectAt objs subject) of
        None \<Rightarrow> Inl TypeError
      | Some m \<Rightarrow> Inr (targetName (metadataAt objs m) = sortedEntityTarget))"

text \<open>
  \<open>arr.filter(callback)\<close> with a callback that may throw: the elements are tested from
  the first to the last, and the first exception ends the call.
\<close>

fun filter_array :: "('a \<Rightarrow> error + bool) \<Rightarrow> 'a list \<Rightarrow> error + 'a list" where
  "filter_array callback [] = Inr []"
| "filter_array callback (x # xs) =
     (case callback x of
        Inl e \<Rightarrow> Inl e
      | Inr keep \<Rightarrow>
          (case filter_array callback xs of
             Inl e \<Rightarrow> Inl e
           | Inr ys \<Rightarrow> Inr (if keep then x # ys else ys)))"

text \<open>
  The body of both \<open>forEach\<close> loops over the sorted targets, on the pair of
  \<open>sortedSubjects\<close> and \<open>this.subjects\<close>; \<open>forEach\<close> skips the holes of an array. When
  the filter throws, the loop ends with the arrays as the earlier rounds left them.
\<close>

fun collectTargets :: "(string \<Rightarrow> sref \<Rightarrow> error + bool) \<Rightarrow> string option list \<Rightarrow>
      sref list \<times> sref list \<Rightarrow> (error + sref list) \<times> sref list" where
  "collectTargets matches [] (sortedSubjects, this_subjects) = (Inr sortedSubjects, this_subjects)"
| "collectTargets matches (None # targets) (sortedSubjects, this_subjects) =
     collectTargets matches targets (sortedSubjects, this_subjects)"
| "collectTargets matches (Some sortedEntityTarget # targets) (sortedSubjects, this_subjects) =
     (case filter_array (matches sortedEntityTarget) this_subjects of
        Inl e \<Rightarrow> (Inl e, this_subjects)
      | Inr entityTargetSubjects \<Rightarrow>
          collectTargets matches targets
            (sortedSubjects @ entityTargetSubjects,
             removeAlreadySorted this_subjects entityTargetSubjects))"

text \<open>
  \<open>sort(direction)\<close>: the value returned or the error thrown, and the sorter as the call
  leaves it (\<open>this.subjects\<close> is spliced in place, also when a later step throws).
\<close>

definition sort_subjects :: "objects \<Rightarrow> sorter \<Rightarrow> direction \<Rightarrow> (error + sref list) \<times> sorter" where
  "sort_subjects objs this direction =
     (if metadatas this = [] then (Inr (subjects this), this)
      else
        let (sorted0, subjects0) =
              (if direction = Delete
               then (let junctionSubjects = filter (isJunction objs) (subjects this)
                     in (junctionSubjects, removeAlreadySorted (subjects this) junctionSubjects))
               else ([], subjects this))
        in case getNonNullableDependencies objs (metadatas this) of
             Inl e \<Rightarrow> (Inl e, this\<lparr>subjects := subjects0\<rparr>)
           | Inr nonNullableDependencies \<Rightarrow>
        (case toposort nonNullableDependencies of
             Inl e \<Rightarrow> (Inl e, this\<lparr>subjects := subjects0\<rparr>)
           | Inr sortedNonNullableEntityTargets \<Rightarrow>
        (case collectTargets (matchesTargetOrAncestor objs)
                (if direction = Insert then rev sortedNonNullableEntityTargets
                 else sortedNonNullableEntityTargets)
                (sorted0, subjects0) of
             (Inl e, subjects1) \<Rightarrow> (Inl e, this\<lparr>subjects := subjects1\<rparr>)
           | (Inr sorted1, subjects1) \<Rightarrow>
        (case getDependencies objs (metadatas this) of
             Inl e \<Rightarrow> (Inl e, this\<lparr>subjects := subjects1\<rparr>)
           | Inr otherDependencies \<Rightarrow>
        (case toposort otherDependencies of
             Inl e \<Rightarrow> (Inl e, this\<lparr>subjects := subjects1\<rparr>)
           | Inr sortedOtherEntityTargets \<Rightarrow>
        (case collectTargets (matchesTarget objs)
                (if direction = Insert then rev sortedOtherEntityTargets
                 else sortedOtherEntityTargets)
                (sorted1, subjects1) of
             (Inl e, subjects2) \<Rightarrow> (Inl e, this\<lparr>subjects := subjects2\<rparr>)
           | (Inr sorted2, subjects2) \<Rightarrow>
               (Inr (sorted2 @ subjects2), this\<lparr>subjects := subjects2\<rparr>)))))))"

text \<open>\<open>new SubjectTopologicalSorter(subjects).sort(direction)\<close>: what the caller gets.\<close>

definition sorted_subjects :: "objects \<Rightarrow> sref list \<Rightarrow> direction \<Rightarrow> error + sref list" where
  "sorted_subjects objs subjs direction = fst (sort_subjects objs (constructor objs subjs) direction)"


subsection \<open>The sorter and the caller's array in memory\<close>

text \<open>
  Arrays are objects too: the memory holds every array of subjects at an address, so that
  the array the caller passes to the constructor and the array the sorter splices can be
  told apart. The constructor's \<open>[...subjects]\<close> allocates a new array with the same
  elements; \<open>sort\<close> works on the array \<open>this.subjects\<close> points to, returns that very
  array when there are no metadatas, and a newly allocated \<open>sortedSubjects\<close> otherwise.
\<close>

type_synonym address = nat
type_synonym memory = "sref list list"

record sorter_object =
  subjects_array :: address
  metadatas_of :: "mref option list"

definition new_sorter :: "objects \<Rightarrow> memory \<Rightarrow> address \<Rightarrow> sorter_object \<times> memory" where
  "new_sorter objs mem subjs =
     (\<lparr>subjects_array = length mem,
       metadatas_of = getUniqueMetadatas objs (mem ! subjs)\<rparr>,
      mem @ [mem ! subjs])"

definition sort_in_memory :: "objects \<Rightarrow> memory \<Rightarrow> sorter_object \<Rightarrow> direction \<Rightarrow>
      (error + address) \<times> memory" where
  "sort_in_memory objs mem this direction =
     (case sort_subjects objs
             \<lparr>subjects = mem ! subjects_array this, metadatas = metadatas_of this\<rparr> direction of
        (outcome, this') \<Rightarrow>
          (let mem' = mem[subjects_array this := subjects this']
           in case outcome of
                Inl e \<Rightarrow> (Inl e, mem')
              | Inr res \<Rightarrow>
                  if metadatas_of this = [] then (Inr (subjects_array this), mem')
                  else (Inr (length mem'), mem' @ [res])))"

text \<open>Any number of \<open>sort\<close> calls on one sorter, whether they return or throw.\<close>

fun sort_repeatedly :: "objects \<Rightarrow> memory \<Rightarrow> sorter_object \<Rightarrow> direction list \<Rightarrow> memory" where
  "sort_repeatedly objs mem this [] = mem"
| "sort_repeatedly objs mem this (direction # directions) =
     sort_repeatedly objs (snd (sort_in_memory objs mem this direction)) this directions"

section \<open>Query result cache: RedisQueryResultCache\<close>

subsection \<open>The Redis client\<close>

text \<open>
  Modelled from the spec: the client library is not part of the repository. It is the
  key-value store with expiry the specification describes, holding texts:
  \<open>get\<close> answers with the stored text or with null, \<open>set\<close> stores a text with an expiry
  in milliseconds, and every command answers with an error while \<open>failing\<close> is set. The
  commands sent are logged. Time does not pass in this model, so no entry expires.
\<close>

datatype command = GET string | SET string string int

record redis_client =
  entries :: "string \<rightharpoonup> string"
  failing :: "string option"
  commands :: "command list"

definition client_get :: "redis_client \<Rightarrow> string \<Rightarrow> (string + string option) \<times> redis_client" where
  "client_get c key =
     ((case failing c of Some err \<Rightarrow> Inl err | None \<Rightarrow> Inr (entries c key)),
      c\<lparr>commands := commands c @ [GET key]\<rparr>)"

definition client_set :: "redis_client \<Rightarrow> string \<Rightarrow> string \<Rightarrow> int \<Rightarrow>
      string option \<times> redis_client" where
  "client_set c key val px =
     (case failing c of
        Some err \<Rightarrow> (Some err, c\<lparr>commands := commands c @ [SET key val px]\<rparr>)
      | None \<Rightarrow>
          (None, c\<lparr>entries := (entries c)(key \<mapsto> val),
                    commands := commands c @ [SET key val px]\<rparr>))"

subsection \<open>The cache\<close>

text \<open>
  Modelled from the spec: the interface \<open>QueryResultCacheOptions\<close> is imported by the cache
  and is not among the source files. Its fields are the ones the specification lists;
  \<open>result\<close> is of type \<open>any\<close>.
\<close>

record 'r QueryResultCacheOptions =
  "identifier" :: "string option"
  time :: "int option"
  duration :: int
  query :: "string option"
  result :: "'r option"

datatype clientType = redis | ioredis | ioredis_cluster

record RedisQueryResultCache =
  clientType :: clientType
  redisMajorVersion :: "nat option"
  client :: redis_client

definition isRedis5OrHigher :: "RedisQueryResultCache \<Rightarrow> bool" where
  "isRedis5OrHigher this =
     (if clientType this \<noteq> redis then False
      else (case redisMajorVersion this of None \<Rightarrow> False | Some v \<Rightarrow> v \<ge> 5))"

text \<open>
  How the promise a cache method returns ends. \<open>Unsettled e\<close>: the callback handed to the
  client threw \<open>e\<close> before it called \<open>ok\<close> or \<open>fail\<close>; the exception goes to the
  client library, which called the callback, and this code leaves the promise pending.
\<close>

datatype exn = ClientError string | SyntaxError

datatype 'a promise = Resolved 'a | Rejected exn | Unsettled exn

text \<open>An optional string is truthy when it is defined and not empty; \<open>a || b\<close>.\<close>

definition truthy :: "string option \<Rightarrow> bool" where
  "truthy v = (case v of None \<Rightarrow> False | Some s \<Rightarrow> s \<noteq> [])"

definition js_or :: "string option \<Rightarrow> string option \<Rightarrow> string option" where
  "js_or a b = (if truthy a then a else b)"

text \<open>
  \<open>getFromCache\<close>. \<open>JSON_parse\<close> stands for \<open>JSON.parse\<close>: \<open>None\<close> when it throws a
  \<open>SyntaxError\<close>, the parsed document otherwise.
\<close>

definition getFromCache :: "(string \<Rightarrow> 'd option) \<Rightarrow> RedisQueryResultCache \<Rightarrow>
      'r QueryResultCacheOptions \<Rightarrow> 'd option promise \<times> RedisQueryResultCache" where
  "getFromCache JSON_parse this options =
     (let key = js_or (identifier options) (query options)
      in if \<not> truthy key then (Resolved None, this)
         else
           (case client_get (client this) (the key) of
              (reply, c) \<Rightarrow>
                (if isRedis5OrHigher this
                 then (case reply of
                         Inl err \<Rightarrow> Rejected (ClientError err)
                       | Inr res \<Rightarrow>
                           if truthy res
                           then (case JSON_parse (the res) of
                                   None \<Rightarrow> Rejected SyntaxError
                                 | Some doc \<Rightarrow> Resolved (Some doc))
                           else Resolved None)
                 else (case reply of
                         Inl err \<Rightarrow> Rejected (ClientError err)
                       | Inr res \<Rightarrow>
                           if truthy res
                           then (case JSON_parse (the res) of
                                   None \<Rightarrow> Unsettled SyntaxError
                                 | Some doc \<Rightarrow> Resolved (Some doc))
                           else Resolved None),
                 this\<lparr>client := c\<rparr>)))"

text \<open>
  \<open>storeInCache\<close>. \<open>JSON_stringify\<close> stands for \<open>JSON.stringify\<close>. Both client
  generations send the same command, with the expiry in different argument shapes.
\<close>

definition storeInCache :: "('r QueryResultCacheOptions \<Rightarrow> string) \<Rightarrow> RedisQueryResultCache \<Rightarrow>
      'r QueryResultCacheOptions \<Rightarrow> 'r QueryResultCacheOptions \<Rightarrow>
      unit promise \<times> RedisQueryResultCache" where
  "storeInCache JSON_stringify this options savedCache =
     (let key = js_or (identifier options) (query options)
      in if \<not> truthy key then (Resolved (), this)
         else
           (let val = JSON_stringify options;
                px = duration options
            in case client_set (client this) (the key) val px of
                 (err, c) \<Rightarrow>
                   (if isRedis5OrHigher this
                    then (case err of
                            Some e \<Rightarrow> Rejected (ClientError e)
                          | None \<Rightarrow> Resolved ())
                    else (case err of
                            Some e \<Rightarrow> Rejected (ClientError e)
                          | None \<Rightarrow> Resolved ()),
                    this\<lparr>client := c\<rparr>)))"

text \<open>The commands a call sent to the client, read from the log before and after it.\<close>

definition commands_sent :: "RedisQueryResultCache \<Rightarrow> RedisQueryResultCache \<Rightarrow> command list" where
  "commands_sent this this' = drop (length (commands (client this))) (commands (client this'))"

section \<open>Notions the properties are stated with\<close>

text \<open>
  The two graphs \<open>sort\<close> builds for a list of subjects (without edges when building them
  throws).
\<close>

definition nonNullableGraph :: "objects \<Rightarrow> sref list \<Rightarrow> edge list" where
  "nonNullableGraph objs subjs =
     (case getNonNullableDependencies objs (getUniqueMetadatas objs subjs) of
        Inl e \<Rightarrow> []
      | Inr dependencies \<Rightarrow> dependencies)"

definition fullGraph :: "objects \<Rightarrow> sref list \<Rightarrow> edge list" where
  "fullGraph objs subjs =
     (case getDependencies objs (getUniqueMetadatas objs subjs) of
        Inl e \<Rightarrow> []
      | Inr dependencies \<Rightarrow> dependencies)"

text \<open>
  An order of nodes that respects the edges: every edge from a node of the list leads to a
  node further back in the list.
\<close>

fun topo :: "edge set \<Rightarrow> string list \<Rightarrow> bool" where
  "topo E [] \<longleftrightarrow> True"
| "topo E (x # xs) \<longleftrightarrow> (\<forall>y. (x, y) \<in> E \<longrightarrow> y \<in> set xs) \<and> topo E xs"

text \<open>A list of nodes in which each one has an edge to the next.\<close>

fun chain :: "edge set \<Rightarrow> string list \<Rightarrow> bool" where
  "chain E [] \<longleftrightarrow> True"
| "chain E [x] \<longleftrightarrow> True"
| "chain E (x # y # zs) \<longleftrightarrow> (x, y) \<in> E \<and> chain E (y # zs)"

text \<open>
  The state of \<open>toposort\<close> while \<open>preds\<close> are being visited and \<open>done\<close> have been placed,
  latest first: the visited indices are those of both, the placed nodes fill the end of
  \<open>sorted\<close> from \<open>cursor\<close> on, and they respect the edges.
\<close>

definition dfs_inv :: "string list \<Rightarrow> edge list \<Rightarrow> string list \<Rightarrow> string list \<Rightarrow>
      toposort_state \<Rightarrow> bool" where
  "dfs_inv nodes edges preds done st \<longleftrightarrow>
     distinct done \<and> set done \<subseteq> set nodes \<and> set done \<inter> set preds = {} \<and>
     visited st = indexOf nodes ` (set done \<union> set preds) \<and>
     cursor st = int (length nodes) - int (length done) \<and>
     sorted_arr st = replicate (length nodes - length done) None @ map Some done \<and>
     topo (set edges) done"

section \<open>Example schemas\<close>

text \<open>
  Entity \<open>A\<close> (metadata 0) has one non-nullable relation with a join column to entity
  \<open>B\<close> (metadata 1). Subject 0 is an \<open>A\<close>, subject 1 a \<open>B\<close>; subjects 2 and 3 are junction
  subjects of \<open>A\<close> and \<open>B\<close>.
\<close>

definition dependent_schema :: objects where
  "dependent_schema =
     \<lparr>metadataAt = (\<lambda>_. \<lparr>targetName = ''B'', inheritanceTree = [''B''],
                            relationsWithJoinColumns = []\<rparr>)
        (0 := \<lparr>targetName = ''A'', inheritanceTree = [''A''],
                relationsWithJoinColumns =
                  [\<lparr>isNullable = False, inverseEntityMetadata = 1\<rparr>]\<rparr>),
      subjectAt = (\<lambda>_. \<lparr>metadata = Some 1, entity = Some 0, databaseEntity = None\<rparr>)
        (0 := \<lparr>metadata = Some 0, entity = Some 1, databaseEntity = None\<rparr>,
         2 := \<lparr>metadata = Some 0, entity = None, databaseEntity = None\<rparr>,
         3 := \<lparr>metadata = Some 1, entity = None, databaseEntity = None\<rparr>)\<rparr>"

text \<open>The same schema, with entities set on the two junction subjects.\<close>

definition dependent_schema_with_entities :: objects where
  "dependent_schema_with_entities =
     dependent_schema\<lparr>subjectAt := (subjectAt dependent_schema)
       (2 := \<lparr>metadata = Some 0, entity = Some 2, databaseEntity = None\<rparr>,
        3 := \<lparr>metadata = Some 1, entity = None, databaseEntity = Some 3\<rparr>)\<rparr>"

text \<open>The same schema, with no metadata on the junction subject 2.\<close>

definition bare_junction_schema :: objects where
  "bare_junction_schema =
     dependent_schema\<lparr>subjectAt := (subjectAt dependent_schema)
       (2 := \<lparr>metadata = None, entity = None, databaseEntity = None\<rparr>)\<rparr>"

text \<open>
  Entity \<open>C\<close> (metadata 0) has one relation with a join column, non-nullable, to itself.
  Subject 0 is a \<open>C\<close>.
\<close>

definition self_reference_schema :: objects where
  "self_reference_schema =
     \<lparr>metadataAt = (\<lambda>_. \<lparr>targetName = ''C'', inheritanceTree = [''C''],
                            relationsWithJoinColumns =
                              [\<lparr>isNullable = False, inverseEntityMetadata = 0\<rparr>]\<rparr>),
      subjectAt = (\<lambda>_. \<lparr>metadata = Some 0, entity = Some 0, databaseEntity = None\<rparr>)\<rparr>"

text \<open>
  Entity \<open>Base\<close> (metadata 0) has one relation with a join column to \<open>Dep\<close> (metadata 2),
  nullable or not; \<open>Derived\<close> (metadata 1) extends \<open>Base\<close> and has no relation in its own
  list. Subject 0 is a \<open>Base\<close>, subject 1 a \<open>Derived\<close>, subject 2 a \<open>Dep\<close>.
\<close>

definition inheritance_schema :: "bool \<Rightarrow> objects" where
  "inheritance_schema nullable =
     \<lparr>metadataAt = (\<lambda>_. \<lparr>targetName = ''Dep'', inheritanceTree = [''Dep''],
                            relationsWithJoinColumns = []\<rparr>)
        (0 := \<lparr>targetName = ''Base'', inheritanceTree = [''Base''],
                relationsWithJoinColumns =
                  [\<lparr>isNullable = nullable, inverseEntityMetadata = 2\<rparr>]\<rparr>,
         1 := \<lparr>targetName = ''Derived'', inheritanceTree = [''Derived'', ''Base''],
                relationsWithJoinColumns = []\<rparr>),
      subjectAt = (\<lambda>_. \<lparr>metadata = Some 2, entity = Some 2, databaseEntity = Some 2\<rparr>)
        (0 := \<lparr>metadata = Some 0, entity = Some 0, databaseEntity = Some 0\<rparr>,
         1 := \<lparr>metadata = Some 1, entity = Some 1, databaseEntity = Some 1\<rparr>)\<rparr>"

text \<open>
  Entity \<open>X\<close> (metadata 0) has one relation with a join column to \<open>Base\<close> (metadata 1),
  nullable or not; \<open>Derived\<close> (metadata 2) extends \<open>Base\<close>; neither of them has a
  relation. Subject 0 is an \<open>X\<close>, subject 1 a \<open>Derived\<close>.
\<close>

definition base_reference_schema :: "bool \<Rightarrow> objects" where
  "base_reference_schema nullable =
     \<lparr>metadataAt = (\<lambda>_. \<lparr>targetName = ''Base'', inheritanceTree = [''Base''],
                            relationsWithJoinColumns = []\<rparr>)
        (0 := \<lparr>targetName = ''X'', inheritanceTree = [''X''],
                relationsWithJoinColumns =
                  [\<lparr>isNullable = nullable, inverseEntityMetadata = 1\<rparr>]\<rparr>,
         2 := \<lparr>targetName = ''Derived'', inheritanceTree = [''Derived'', ''Base''],
                relationsWithJoinColumns = []\<rparr>),
      subjectAt = (\<lambda>_. \<lparr>metadata = Some 2, entity = Some 1, databaseEntity = None\<rparr>)
        (0 := \<lparr>metadata = Some 0, entity = Some 0, databaseEntity = None\<rparr>)\<rparr>"

text \<open>
  Entities \<open>A\<close> (metadata 0) and \<open>B\<close> (metadata 1), each with one non-nullable relation
  with a join column to the other. Subject 0 is an \<open>A\<close>, subject 1 a \<open>B\<close>, subject 2 a
  junction subject of \<open>A\<close>.
\<close>

definition cyclic_schema :: objects where
  "cyclic_schema =
     \<lparr>metadataAt = (\<lambda>_. \<lparr>targetName = ''B'', inheritanceTree = [''B''],
                            relationsWithJoinColumns =
                              [\<lparr>isNullable = False, inverseEntityMetadata = 0\<rparr>]\<rparr>)
        (0 := \<lparr>targetName = ''A'', inheritanceTree = [''A''],
                relationsWithJoinColumns =
                  [\<lparr>isNullable = False, inverseEntityMetadata = 1\<rparr>]\<rparr>),
      subjectAt = (\<lambda>_. \<lparr>metadata = Some 1, entity = Some 1, databaseEntity = Some 1\<rparr>)
        (0 := \<lparr>metadata = Some 0, entity = Some 0, databaseEntity = Some 0\<rparr>,
         2 := \<lparr>metadata = Some 0, entity = None, databaseEntity = None\<rparr>)\<rparr>"

text \<open>
  Entity \<open>A\<close> (metadata 0) extends entity \<open>B\<close> (metadata 1) and has one non-nullable
  relation with a join column to it; \<open>B\<close> has no relation. Subject 0 is an \<open>A\<close>, subject
  1 a \<open>B\<close>.
\<close>

definition subclass_schema :: objects where
  "subclass_schema =
     \<lparr>metadataAt = (\<lambda>_. \<lparr>targetName = ''B'', inheritanceTree = [''B''],
                            relationsWithJoinColumns = []\<rparr>)
        (0 := \<lparr>targetName = ''A'', inheritanceTree = [''A'', ''B''],
                relationsWithJoinColumns =
                  [\<lparr>isNullable = False, inverseEntityMetadata = 1\<rparr>]\<rparr>),
      subjectAt = (\<lambda>_. \<lparr>metadata = Some 1, entity = Some 1, databaseEntity = None\<rparr>)
        (0 := \<lparr>metadata = Some 0, entity = Some 0, databaseEntity = None\<rparr>)\<rparr>"

section \<open>Example caches\<close>

text \<open>
  A connected cache on a working client of the given major version, empty or holding one
  text; an options record with a query text only; and an entry with both an identifier
  and a query text.
\<close>

definition empty_cache :: "nat \<Rightarrow> RedisQueryResultCache" where
  "empty_cache version =
     \<lparr>clientType = redis, redisMajorVersion = Some version,
      client = \<lparr>entries = Map.empty, failing = None, commands = []\<rparr>\<rparr>"

definition cache_holding :: "nat \<Rightarrow> string \<Rightarrow> string \<Rightarrow> RedisQueryResultCache" where
  "cache_holding version key text =
     \<lparr>clientType = redis, redisMajorVersion = Some version,
      client = \<lparr>entries = [key \<mapsto> text], failing = None, commands = []\<rparr>\<rparr>"

definition by_query :: "string \<Rightarrow> unit QueryResultCacheOptions" where
  "by_query q = \<lparr>identifier = None, time = None, duration = 0, query = Some q, result = None\<rparr>"

definition entry_id1 :: "unit QueryResultCacheOptions" where
  "entry_id1 = \<lparr>identifier = Some ''id1'', time = Some 0, duration = 60000,
                 query = Some ''Q2'', result = Some ()\<rparr>"

text \<open>
  Stand-ins for \<open>JSON.stringify\<close> and \<open>JSON.parse\<close> in the examples: a text that shows
  the key material of the options, and a parser that accepts every text as it is.
\<close>

definition sample_stringify :: "unit QueryResultCacheOptions \<Rightarrow> string" where
  "sample_stringify options =
     ''identifier='' @ (case identifier options of None \<Rightarrow> ''undefined'' | Some i \<Rightarrow> i) @
     '';query='' @ (case query options of None \<Rightarrow> ''undefined'' | Some q \<Rightarrow> q)"

definition sample_parse :: "string \<Rightarrow> string option" where
  "sample_parse text = Some text"

section \<open>Properties of the sorter\<close>

subsection \<open>Removing the subjects a filter selected\<close>

lemma splice1_Cons_Suc: "0 \<le> k \<Longrightarrow> splice1 (y # ys) (k + 1) = y # splice1 ys k"
  by (auto simp: splice1_def Let_def min_def nat_add_distrib)

lemma splice1_indexOf: "x \<in> set xs \<Longrightarrow> splice1 xs (indexOf xs x) = remove1 x xs"
proof (induction xs)
  case Nil
  then show ?case by simp
next
  case (Cons y ys)
  show ?case
  proof (cases "y = x")
    case True
    then show ?thesis by (simp add: splice1_def)
  next
    case False
    with Cons.prems have mem: "x \<in> set ys" by simp
    then have nonneg: "0 \<le> indexOf ys x" by (simp add: indexOf_nonneg_iff)
    with False mem Cons.IH show ?thesis
      by (simp add: Let_def splice1_Cons_Suc)
  qed
qed

lemma removeAlreadySorted_Nil: "removeAlreadySorted ws [] = ws"
  by (simp add: removeAlreadySorted_def)

lemma removeAlreadySorted_Cons:
  "removeAlreadySorted ws (s # ss) = removeAlreadySorted (splice1 ws (indexOf ws s)) ss"
  by (simp add: removeAlreadySorted_def)

lemma removeAlreadySorted_filter_append:
  "\<forall>x\<in>set pre. \<not> P x \<Longrightarrow>
   removeAlreadySorted (pre @ ys) (filter P ys) = pre @ filter (\<lambda>x. \<not> P x) ys"
proof (induction ys arbitrary: pre)
  case Nil
  then show ?case by (simp add: removeAlreadySorted_Nil)
next
  case (Cons y ys)
  show ?case
  proof (cases "P y")
    case True
    with Cons.prems have "y \<notin> set pre" by auto
    then have "remove1 y (pre @ y # ys) = pre @ ys"
      by (simp add: remove1_append)
    with True Cons.IH [OF Cons.prems] show ?thesis
      by (simp add: removeAlreadySorted_Cons splice1_indexOf)
  next
    case False
    with Cons.prems have "\<forall>x\<in>set (pre @ [y]). \<not> P x" by simp
    from Cons.IH [OF this] False show ?thesis by simp
  qed
qed

lemma removeAlreadySorted_filter:
  "removeAlreadySorted ws (filter P ws) = filter (\<lambda>x. \<not> P x) ws"
  using removeAlreadySorted_filter_append [of "[]" P ws] by simp

subsection \<open>Filters that may throw\<close>

lemma filter_array_Inr:
  "filter_array p ws = Inr ys \<Longrightarrow> ys = filter (\<lambda>s. p s = Inr True) ws"
proof (induction ws arbitrary: ys)
  case Nil
  then show ?case by simp
next
  case (Cons w ws)
  from Cons.prems obtain keep zs where
    w: "p w = Inr keep" and zs: "filter_array p ws = Inr zs"
    and ys: "ys = (if keep then w # zs else zs)"
    by (auto split: sum.splits)
  from Cons.IH [OF zs] w ys show ?case by auto
qed

lemma filter_array_Inl:
  "filter_array p ws = Inl e \<Longrightarrow> \<exists>s\<in>set ws. p s = Inl e"
  by (induction ws) (auto split: sum.splits)

lemma filter_array_total:
  "\<forall>s\<in>set ws. \<exists>keep. p s = Inr keep \<Longrightarrow>
   filter_array p ws = Inr (filter (\<lambda>s. p s = Inr True) ws)"
proof -
  assume defined: "\<forall>s\<in>set ws. \<exists>keep. p s = Inr keep"
  show ?thesis
  proof (cases "filter_array p ws")
    case (Inl e)
    from filter_array_Inl [OF this] defined show ?thesis by auto
  next
    case (Inr ys)
    from filter_array_Inr [OF this] Inr show ?thesis by simp
  qed
qed

lemma collectTargets_Some_Inr:
  assumes "collectTargets matches (Some name # targets) (acc, ws) = (Inr acc', ws')"
  shows "collectTargets matches targets
           (acc @ filter (\<lambda>s. matches name s = Inr True) ws,
            filter (\<lambda>s. matches name s \<noteq> Inr True) ws) = (Inr acc', ws')"
proof (cases "filter_array (matches name) ws")
  case (Inl e)
  with assms show ?thesis by simp
next
  case (Inr hit)
  from filter_array_Inr [OF this] have "hit = filter (\<lambda>s. matches name s = Inr True) ws" .
  with assms Inr show ?thesis
    by (simp add: removeAlreadySorted_filter)
qed

lemma collectTargets_appends:
  "collectTargets matches targets (acc, ws) = (Inr acc', ws') \<Longrightarrow>
   \<exists>xs. acc' = acc @ xs \<and> mset xs + mset ws' = mset ws"
proof (induction targets arbitrary: acc ws)
  case Nil
  then show ?case by simp
next
  case (Cons t targets)
  show ?case
  proof (cases t)
    case None
    with Cons show ?thesis by simp
  next
    case (Some name)
    let ?hit = "filter (\<lambda>s. matches name s = Inr True) ws"
    let ?left = "filter (\<lambda>s. matches name s \<noteq> Inr True) ws"
    from Cons.prems Some
    have "collectTargets matches targets (acc @ ?hit, ?left) = (Inr acc', ws')"
      using collectTargets_Some_Inr by blast
    from Cons.IH [OF this] obtain xs where
      xs: "acc' = (acc @ ?hit) @ xs" "mset xs + mset ws' = mset ?left"
      by blast
    have part: "mset ws = mset ?hit + mset ?left"
      using multiset_partition [of "mset ws" "\<lambda>s. matches name s = Inr True"]
      by simp
    have "mset (?hit @ xs) + mset ws' = mset ?hit + (mset xs + mset ws')"
      by simp
    also have "\<dots> = mset ws"
      unfolding xs(2) using part by simp
    finally have "mset (?hit @ xs) + mset ws' = mset ws" .
    moreover have "acc' = acc @ (?hit @ xs)"
      using xs(1) by simp
    ultimately show ?thesis by blast
  qed
qed

lemma collectTargets_Inl:
  "collectTargets matches targets (acc, ws) = (Inl e, ws') \<Longrightarrow>
   \<exists>t. \<exists>s\<in>set ws. matches t s = Inl e"
proof (induction targets arbitrary: acc ws)
  case Nil
  then show ?case by simp
next
  case (Cons t targets)
  show ?case
  proof (cases t)
    case None
    with Cons show ?thesis by simp
  next
    case (Some name)
    show ?thesis
    proof (cases "filter_array (matches name) ws")
      case (Inl e')
      with Cons.prems Some have "e' = e" by simp
      with filter_array_Inl [OF Inl] show ?thesis by blast
    next
      case (Inr hit)
      from filter_array_Inr [OF this] have hit: "hit = filter (\<lambda>s. matches name s = Inr True) ws" .
      from Cons.prems Some Inr have "collectTargets matches targets
          (acc @ hit, removeAlreadySorted ws hit) = (Inl e, ws')"
        by simp
      from Cons.IH [OF this] obtain t' s where
        "s \<in> set (removeAlreadySorted ws hit)" "matches t' s = Inl e"
        by blast
      then show ?thesis
        unfolding hit removeAlreadySorted_filter by auto
    qed
  qed
qed

lemma collectTargets_total:
  assumes "\<forall>s\<in>set ws. \<forall>t. \<exists>keep. matches t s = Inr keep"
  shows "\<exists>acc' ws'. collectTargets matches targets (acc, ws) = (Inr acc', ws')"
proof -
  obtain r ws' where run: "collectTargets matches targets (acc, ws) = (r, ws')"
    by (cases "collectTargets matches targets (acc, ws)")
  show ?thesis
  proof (cases r)
    case (Inl e)
    with run have "collectTargets matches targets (acc, ws) = (Inl e, ws')" by simp
    from collectTargets_Inl [OF this] obtain t s where "s \<in> set ws" "matches t s = Inl e"
      by blast
    moreover from assms \<open>s \<in> set ws\<close> obtain keep where "matches t s = Inr keep"
      by blast
    ultimately show ?thesis by simp
  next
    case (Inr acc')
    with run show ?thesis by blast
  qed
qed

text \<open>What a normal return of \<open>sort\<close> is made of.\<close>

lemma sort_subjects_steps:
  assumes "sort_subjects objs this direction = (Inr res, this')" and "metadatas this \<noteq> []"
  obtains d1 t1 s1 w1 d2 t2 s2 w2 where
    "getNonNullableDependencies objs (metadatas this) = Inr d1" "toposort d1 = Inr t1"
    "collectTargets (matchesTargetOrAncestor objs) (if direction = Insert then rev t1 else t1)
       (if direction = Delete then filter (isJunction objs) (subjects this) else [],
        if direction = Delete then filter (\<lambda>s. \<not> isJunction objs s) (subjects this)
        else subjects this) = (Inr s1, w1)"
    "getDependencies objs (metadatas this) = Inr d2" "toposort d2 = Inr t2"
    "collectTargets (matchesTarget objs) (if direction = Insert then rev t2 else t2) (s1, w1) =
       (Inr s2, w2)"
    "res = s2 @ w2"
  using assms
  by (auto simp: sort_subjects_def Let_def removeAlreadySorted_filter
      split: sum.splits prod.splits if_splits)

lemma sort_subjects_Inr:
  assumes "sort_subjects objs this direction = (Inr res, this')"
  shows "(metadatas this = [] \<and> res = subjects this) \<or>
         (\<exists>rest. res = (if direction = Delete then filter (isJunction objs) (subjects this) else []) @ rest \<and>
            mset rest = mset (if direction = Delete
                              then filter (\<lambda>s. \<not> isJunction objs s) (subjects this)
                              else subjects this))"
proof (cases "metadatas this = []")
  case True
  with assms have "res = subjects this" by (auto simp: sort_subjects_def)
  with True show ?thesis by blast
next
  case False
  define sorted0 where "sorted0 = (if direction = Delete then filter (isJunction objs) (subjects this) else [])"
  define subjects0 where "subjects0 = (if direction = Delete
      then filter (\<lambda>s. \<not> isJunction objs s) (subjects this) else subjects this)"
  from sort_subjects_steps [OF assms False] obtain t1 t2 s1 w1 s2 w2 where
    c1: "collectTargets (matchesTargetOrAncestor objs) (if direction = Insert then rev t1 else t1)
           (sorted0, subjects0) = (Inr s1, w1)"
    and c2: "collectTargets (matchesTarget objs) (if direction = Insert then rev t2 else t2)
           (s1, w1) = (Inr s2, w2)"
    and res: "res = s2 @ w2"
    unfolding sorted0_def subjects0_def by metis
  from collectTargets_appends [OF c1] obtain xs where
    xs: "s1 = sorted0 @ xs" "mset xs + mset w1 = mset subjects0" by blast
  from collectTargets_appends [OF c2] obtain ys where
    ys: "s2 = s1 @ ys" "mset ys + mset w2 = mset w1" by blast
  have "res = sorted0 @ (xs @ ys @ w2)"
    using res xs ys by simp
  moreover have "mset (xs @ ys @ w2) = mset subjects0"
    using xs ys by (simp add: ac_simps)
  ultimately show ?thesis
    unfolding sorted0_def subjects0_def by blast
qed

lemma sort_subjects_mset:
  assumes "sort_subjects objs this direction = (Inr res, this')"
  shows "mset res = mset (subjects this)"
proof -
  have "mset (filter (isJunction objs) xs) + mset (filter (\<lambda>s. \<not> isJunction objs s) xs) = mset xs" for xs
    by (induction xs) auto
  with sort_subjects_Inr [OF assms] show ?thesis
    by (auto split: if_splits)
qed

subsection \<open>The metadatas of a subject list\<close>

lemma indexOf_absent_iff: "indexOf xs x = -1 \<longleftrightarrow> x \<notin> set xs"
proof (induction xs)
  case Nil
  then show ?case by simp
next
  case (Cons y ys)
  have "0 \<le> indexOf ys x \<longleftrightarrow> x \<in> set ys"
    by (rule indexOf_nonneg_iff)
  with Cons show ?case
    by (auto simp: Let_def)
qed

lemma getUniqueMetadatas_foldl_set:
  "set (foldl (\<lambda>ms subject.
              if indexOf ms (metadata (subjectAt objs subject)) = -1
              then ms @ [metadata (subjectAt objs subject)] else ms) acc subjs) =
   set acc \<union> (\<lambda>s. metadata (subjectAt objs s)) ` set subjs"
  by (induction subjs arbitrary: acc) (auto simp: indexOf_absent_iff)

lemma set_getUniqueMetadatas:
  "set (getUniqueMetadatas objs subjs) = (\<lambda>s. metadata (subjectAt objs s)) ` set subjs"
  by (simp add: getUniqueMetadatas_def getUniqueMetadatas_foldl_set)

lemma getUniqueMetadatas_empty: "getUniqueMetadatas objs subjs = [] \<Longrightarrow> subjs = []"
  using set_getUniqueMetadatas [of objs subjs] by auto

lemma sorted_subjects_mset:
  assumes "sorted_subjects objs subjs direction = Inr res"
  shows "mset res = mset subjs"
proof -
  from assms obtain this' where
    "sort_subjects objs (constructor objs subjs) direction = (Inr res, this')"
    by (cases "sort_subjects objs (constructor objs subjs) direction") (simp add: sorted_subjects_def)
  from sort_subjects_mset [OF this] show ?thesis
    by (simp add: constructor_def)
qed

subsection \<open>Nodes and their indices\<close>

lemma uniqueNodes_from_set:
  "set (uniqueNodes_from res arr) = set res \<union> fst ` set arr \<union> snd ` set arr"
  by (induction res arr rule: uniqueNodes_from.induct) (auto simp: Let_def indexOf_neg_iff)

lemma uniqueNodes_from_distinct:
  "distinct res \<Longrightarrow> distinct (uniqueNodes_from res arr)"
  by (induction res arr rule: uniqueNodes_from.induct) (auto simp: Let_def indexOf_neg_iff)

lemma set_uniqueNodes: "set (uniqueNodes arr) = fst ` set arr \<union> snd ` set arr"
  by (simp add: uniqueNodes_def uniqueNodes_from_set)

lemma distinct_uniqueNodes: "distinct (uniqueNodes arr)"
  by (simp add: uniqueNodes_def uniqueNodes_from_distinct)

lemma indexOf_bounds: "x \<in> set xs \<Longrightarrow> 0 \<le> indexOf xs x \<and> indexOf xs x < int (length xs)"
  by (induction xs) (auto simp: Let_def indexOf_neg_iff)

lemma nth_indexOf: "x \<in> set xs \<Longrightarrow> xs ! nat (indexOf xs x) = x"
proof (induction xs)
  case Nil
  then show ?case by simp
next
  case (Cons y ys)
  show ?case
  proof (cases "y = x")
    case True
    then show ?thesis by simp
  next
    case False
    with Cons.prems have mem: "x \<in> set ys" by simp
    then have "0 \<le> indexOf ys x" by (simp add: indexOf_nonneg_iff)
    with False mem Cons.IH show ?thesis
      by (simp add: Let_def nat_add_distrib)
  qed
qed

lemma indexOf_inj: "x \<in> set xs \<Longrightarrow> indexOf xs x = indexOf xs y \<Longrightarrow> x = y"
proof -
  assume x: "x \<in> set xs" and eq: "indexOf xs x = indexOf xs y"
  from x have "0 \<le> indexOf xs x" by (simp add: indexOf_nonneg_iff)
  with eq have "0 \<le> indexOf xs y" by simp
  then have y: "y \<in> set xs" by (simp add: indexOf_nonneg_iff)
  have "x = xs ! nat (indexOf xs x)"
    using nth_indexOf [OF x] by simp
  also have "\<dots> = xs ! nat (indexOf xs y)"
    by (simp only: eq)
  also have "\<dots> = y"
    using nth_indexOf [OF y] by simp
  finally show ?thesis .
qed

lemma indexOf_nth: "distinct xs \<Longrightarrow> i < length xs \<Longrightarrow> indexOf xs (xs ! i) = int i"
proof (induction xs arbitrary: i)
  case Nil
  then show ?case by simp
next
  case (Cons y ys)
  show ?case
  proof (cases i)
    case 0
    then show ?thesis by simp
  next
    case (Suc j)
    with Cons.prems have "j < length ys" "ys ! j \<noteq> y" "distinct ys" by auto
    with Suc Cons.IH [of j] show ?thesis by (auto simp: Let_def)
  qed
qed

subsection \<open>Orders that respect the edges\<close>

lemma topo_edge:
  "topo E L \<Longrightarrow> (x, y) \<in> E \<Longrightarrow> x \<in> set L \<Longrightarrow> \<exists>as bs. L = as @ x # bs \<and> y \<in> set bs"
proof (induction L)
  case Nil
  then show ?case by simp
next
  case (Cons z L)
  show ?case
  proof (cases "z = x")
    case True
    with Cons.prems have "y \<in> set L" by simp
    with True have "z # L = [] @ x # L \<and> y \<in> set L" by simp
    then show ?thesis by blast
  next
    case False
    with Cons obtain as bs where "L = as @ x # bs" "y \<in> set bs" by auto
    then have "z # L = (z # as) @ x # bs \<and> y \<in> set bs" by simp
    then show ?thesis by blast
  qed
qed

lemma topo_path:
  assumes "topo E L" and "distinct L"
  shows "(x, y) \<in> E\<^sup>+ \<Longrightarrow> x \<in> set L \<Longrightarrow> \<exists>as bs. L = as @ x # bs \<and> y \<in> set bs"
proof (induction rule: trancl_induct)
  case (base y)
  with assms(1) show ?case by (simp add: topo_edge)
next
  case (step y z)
  then obtain as bs where L: "L = as @ x # bs" and y: "y \<in> set bs" by blast
  then have "y \<in> set L" by simp
  from topo_edge [OF assms(1) step(2) this] obtain cs ds where
    L': "L = cs @ y # ds" and z: "z \<in> set ds" by blast
  from y obtain bs1 bs2 where bs: "bs = bs1 @ y # bs2"
    by (auto simp: in_set_conv_decomp)
  with L have "L = (as @ x # bs1) @ y # bs2" by simp
  with L' assms(2) have "ds = bs2"
    by (metis append_Cons_eq_iff distinct.simps(2) distinct_append list.inject not_distinct_conv_prefix same_append_eq)
  with z bs have "z \<in> set bs" by simp
  with L show ?case by blast
qed

lemma topo_acyclic:
  assumes "topo E L" and "distinct L" and "fst ` E \<subseteq> set L"
  shows "(x, x) \<notin> E\<^sup>+"
proof
  assume cyc: "(x, x) \<in> E\<^sup>+"
  then have "x \<in> fst ` E"
    by (metis Domain.DomainI Domain_fst trancl_domain)
  with assms(3) have "x \<in> set L" by blast
  from topo_path [OF assms(1,2) cyc this] assms(2) show False by auto
qed


subsection \<open>The invariant of the depth-first visit\<close>

declare visit.simps [simp del]

lemma dfs_inv_visited:
  assumes "dfs_inv nodes edges preds done st"
    and "node \<in> set nodes" and "node \<notin> set preds"
    and "indexOf nodes node \<in> visited st"
  shows "node \<in> set done"
proof -
  from assms(1,4) obtain z where z: "z \<in> set done \<union> set preds"
    and eq: "indexOf nodes node = indexOf nodes z"
    by (auto simp: dfs_inv_def)
  from indexOf_inj [OF assms(2) eq] z assms(3) show ?thesis by auto
qed

lemma dfs_inv_enter:
  assumes "dfs_inv nodes edges preds done st"
    and "node \<in> set nodes"
    and "indexOf nodes node \<notin> visited st"
  shows "dfs_inv nodes edges (preds @ [node]) done
           (st\<lparr>visited := insert (indexOf nodes node) (visited st)\<rparr>)"
proof -
  from assms(1,3) have "node \<notin> set done"
    by (auto simp: dfs_inv_def)
  with assms(1) show ?thesis
    by (auto simp: dfs_inv_def)
qed

lemma replicate_Suc_update_last:
  "(replicate (Suc m) None)[m := Some v] = replicate m None @ [Some v]"
  by (induction m) simp_all

lemma dfs_inv_finish:
  assumes inv: "dfs_inv nodes edges (preds @ [node]) done st"
    and node: "node \<in> set nodes" "node \<notin> set preds" and dist: "distinct nodes"
    and succs: "\<forall>y. (node, y) \<in> set edges \<longrightarrow> y \<in> set done"
  shows "dfs_inv nodes edges preds (node # done)
           (st\<lparr>cursor := cursor st - 1,
               sorted_arr := array_set (sorted_arr st) (cursor st - 1) node\<rparr>)"
proof -
  from inv have fresh: "node \<notin> set done" and d: "distinct done" and sub: "set done \<subseteq> set nodes"
    and disj: "set done \<inter> set preds = {}"
    and vis: "visited st = indexOf nodes ` (set done \<union> set (preds @ [node]))"
    and top: "topo (set edges) done"
    by (auto simp: dfs_inv_def)
  from fresh sub node have "set done \<subset> set nodes" by auto
  then have "card (set done) < card (set nodes)"
    by (simp add: psubset_card_mono)
  with d dist have less: "length done < length nodes"
    by (simp add: distinct_card)
  then obtain m where m: "length nodes - length done = Suc m"
    by (cases "length nodes - length done") auto
  then have cur: "int (length nodes) - int (length done) - 1 = int m"
    using less by linarith
  from inv have arr: "sorted_arr st = replicate (Suc m) None @ map Some done"
    and c: "cursor st = int (length nodes) - int (length done)"
    by (simp_all add: dfs_inv_def m)
  have set_arr: "array_set (sorted_arr st) (cursor st - 1) node =
        replicate m None @ map Some (node # done)"
    unfolding c cur arr
    by (simp add: array_set_def list_update_append replicate_Suc_update_last
        del: replicate.simps)
  have len: "length nodes - length (node # done) = m"
    using m by simp
  have cur': "cursor st - 1 = int (length nodes) - int (length (node # done))"
    using c by simp
  show ?thesis
    unfolding dfs_inv_def
  proof (intro conjI)
    show "distinct (node # done)" using fresh d by simp
    show "set (node # done) \<subseteq> set nodes" using node sub by simp
    show "set (node # done) \<inter> set preds = {}" using node disj by simp
    show "visited (st\<lparr>cursor := cursor st - 1,
        sorted_arr := array_set (sorted_arr st) (cursor st - 1) node\<rparr>) =
        indexOf nodes ` (set (node # done) \<union> set preds)"
      using vis by simp
    show "cursor (st\<lparr>cursor := cursor st - 1,
        sorted_arr := array_set (sorted_arr st) (cursor st - 1) node\<rparr>) =
        int (length nodes) - int (length (node # done))"
      using cur' by simp
    show "sorted_arr (st\<lparr>cursor := cursor st - 1,
        sorted_arr := array_set (sorted_arr st) (cursor st - 1) node\<rparr>) =
        replicate (length nodes - length (node # done)) None @ map Some (node # done)"
      unfolding len using set_arr by simp
    show "topo (set edges) (node # done)" using succs top by simp
  qed
qed

lemma visit_visit_outgoing_inv:
  "dfs_inv nodes edges preds done st \<Longrightarrow> distinct nodes \<Longrightarrow> snd ` set edges \<subseteq> set nodes \<Longrightarrow>
   node \<in> set nodes \<Longrightarrow> i = indexOf nodes node \<Longrightarrow>
   visit edges nodes node i preds st = Inr st' \<Longrightarrow>
   \<exists>new. dfs_inv nodes edges preds (new @ done) st' \<and> node \<in> set (new @ done)"
  "dfs_inv nodes edges preds done st \<Longrightarrow> distinct nodes \<Longrightarrow> snd ` set edges \<subseteq> set nodes \<Longrightarrow>
   snd ` set outgoing \<subseteq> set nodes \<Longrightarrow>
   visit_outgoing edges nodes outgoing preds st = Inr st' \<Longrightarrow>
   \<exists>new. dfs_inv nodes edges preds (new @ done) st' \<and> snd ` set outgoing \<subseteq> set (new @ done)"
proof (induction edges nodes node i preds st and edges nodes outgoing preds st
    arbitrary: "done" st' and "done" st' rule: visit_visit_outgoing.induct)
  case (1 edges nodes node i predecessors st)
  note inv = "1.prems"(1) and dist = "1.prems"(2) and closed = "1.prems"(3)
    and node = "1.prems"(4) and idx = "1.prems"(5) and run = "1.prems"(6)
  from run have notpred: "node \<notin> set predecessors"
    by (auto simp: visit.simps [of edges nodes node i predecessors st] indexOf_nonneg_iff
        split: if_splits)
  show ?case
  proof (cases "i \<in> visited st")
    case True
    with node run notpred have "st' = st"
      by (auto simp: visit.simps [of edges nodes node i predecessors st] indexOf_nonneg_iff
          indexOf_neg_iff split: if_splits)
    moreover from True idx have "indexOf nodes node \<in> visited st" by simp
    from dfs_inv_visited [OF inv node notpred this]
    have "node \<in> set done" .
    ultimately have "dfs_inv nodes edges predecessors ([] @ done) st' \<and> node \<in> set ([] @ done)"
      using inv by simp
    then show ?thesis by blast
  next
    case False
    let ?out = "rev (filter (\<lambda>edge. fst edge = node) edges)"
    let ?st1 = "st\<lparr>visited := insert i (visited st)\<rparr>"
    from node run notpred False obtain st2 where
      out: "visit_outgoing edges nodes ?out (predecessors @ [node]) ?st1 = Inr st2"
      and st': "st' = st2\<lparr>cursor := cursor st2 - 1,
                          sorted_arr := array_set (sorted_arr st2) (cursor st2 - 1) node\<rparr>"
      by (auto simp: visit.simps [of edges nodes node i predecessors st] indexOf_nonneg_iff
          indexOf_neg_iff split: if_splits sum.splits)
    have cond: "\<not> 0 \<le> indexOf predecessors node" "\<not> indexOf nodes node < 0"
      using notpred node by (simp_all add: indexOf_nonneg_iff indexOf_neg_iff)
    from False idx have "indexOf nodes node \<notin> visited st" by simp
    from dfs_inv_enter [OF inv node this] idx
    have inv1: "dfs_inv nodes edges (predecessors @ [node]) done ?st1" by simp
    have sub: "snd ` set ?out \<subseteq> set nodes"
      using closed by auto
    from "1.IH" [OF cond False inv1 dist closed sub out] obtain new where
      inv2: "dfs_inv nodes edges (predecessors @ [node]) (new @ done) st2"
      and succs: "snd ` set ?out \<subseteq> set (new @ done)"
      by blast
    from succs have "\<forall>y. (node, y) \<in> set edges \<longrightarrow> y \<in> set (new @ done)"
      by force
    from dfs_inv_finish [OF inv2 node notpred dist this] st'
    have "dfs_inv nodes edges predecessors ((node # new) @ done) st' \<and>
          node \<in> set ((node # new) @ done)"
      by simp
    then show ?thesis by blast
  qed
next
  case (2 edges nodes preds st)
  then have "dfs_inv nodes edges preds ([] @ done) st' \<and> snd ` set [] \<subseteq> set ([] @ done)"
    by simp
  then show ?case by blast
next
  case (3 edges nodes edge outgoing preds st)
  note inv = "3.prems"(1) and dist = "3.prems"(2) and closed = "3.prems"(3)
    and sub = "3.prems"(4) and run = "3.prems"(5)
  from run obtain st1 where
    first: "visit edges nodes (snd edge) (indexOf nodes (snd edge)) preds st = Inr st1"
    and rest: "visit_outgoing edges nodes outgoing preds st1 = Inr st'"
    by (auto split: sum.splits)
  from sub have child: "snd edge \<in> set nodes" and sub': "snd ` set outgoing \<subseteq> set nodes"
    by auto
  from "3.IH"(1) [OF inv dist closed child refl first] obtain new1 where
    inv1: "dfs_inv nodes edges preds (new1 @ done) st1" and in1: "snd edge \<in> set (new1 @ done)"
    by blast
  from "3.IH"(2) [OF first inv1 dist closed sub' rest] obtain new2 where
    inv2: "dfs_inv nodes edges preds (new2 @ new1 @ done) st'"
    and in2: "snd ` set outgoing \<subseteq> set (new2 @ new1 @ done)"
    by blast
  from inv2 in1 in2
  have "dfs_inv nodes edges preds ((new2 @ new1) @ done) st' \<and>
        snd ` set (edge # outgoing) \<subseteq> set ((new2 @ new1) @ done)"
    by auto
  then show ?case by blast
qed


lemma visit_roots_inv:
  "dfs_inv nodes edges [] done st \<Longrightarrow> distinct nodes \<Longrightarrow> snd ` set edges \<subseteq> set nodes \<Longrightarrow>
   k \<le> length nodes \<Longrightarrow> visit_roots edges nodes k st = Inr st' \<Longrightarrow>
   \<exists>new. dfs_inv nodes edges [] (new @ done) st' \<and> (\<forall>i<k. nodes ! i \<in> set (new @ done))"
proof (induction k arbitrary: "done" st)
  case 0
  then have "dfs_inv nodes edges [] ([] @ done) st' \<and> (\<forall>i<0::nat. nodes ! i \<in> set ([] @ done))"
    by simp
  then show ?case by blast
next
  case (Suc k)
  note inv = Suc.prems(1) and dist = Suc.prems(2) and closed = Suc.prems(3)
    and k = Suc.prems(4) and run = Suc.prems(5)
  from k have kn: "k < length nodes" and k': "k \<le> length nodes" by simp_all
  then have node: "nodes ! k \<in> set nodes" and idx: "int k = indexOf nodes (nodes ! k)"
    using dist by (simp_all add: indexOf_nth)
  obtain st1 new1 where
    inv1: "dfs_inv nodes edges [] (new1 @ done) st1" and in1: "nodes ! k \<in> set (new1 @ done)"
    and rest: "visit_roots edges nodes k st1 = Inr st'"
  proof (cases "int k \<in> visited st")
    case True
    with idx have "indexOf nodes (nodes ! k) \<in> visited st" by simp
    from dfs_inv_visited [OF inv node _ this] have "nodes ! k \<in> set ([] @ done)" by simp
    moreover from run True have "visit_roots edges nodes k st = Inr st'" by simp
    ultimately show ?thesis using inv that [of "[]" st] by simp
  next
    case False
    with run obtain st1 where
      first: "visit edges nodes (nodes ! k) (int k) [] st = Inr st1"
      and rest: "visit_roots edges nodes k st1 = Inr st'"
      by (auto split: sum.splits)
    from visit_visit_outgoing_inv(1) [OF inv dist closed node idx first] rest that
    show ?thesis by blast
  qed
  from Suc.IH [OF inv1 dist closed k' rest] obtain new2 where
    inv2: "dfs_inv nodes edges [] (new2 @ new1 @ done) st'"
    and in2: "\<forall>i<k. nodes ! i \<in> set (new2 @ new1 @ done)"
    by blast
  have "\<forall>i<Suc k. nodes ! i \<in> set ((new2 @ new1) @ done)"
  proof (intro allI impI)
    fix i assume "i < Suc k"
    then consider "i < k" | "i = k" by linarith
    then show "nodes ! i \<in> set ((new2 @ new1) @ done)"
      using in1 in2 by cases auto
  qed
  with inv2 have "dfs_inv nodes edges [] ((new2 @ new1) @ done) st' \<and>
      (\<forall>i<Suc k. nodes ! i \<in> set ((new2 @ new1) @ done))"
    by simp
  then show ?case by blast
qed

text \<open>What \<open>toposort\<close> returns: every node once, no hole, each edge pointing backwards.\<close>

lemma toposort_Inr:
  assumes "toposort edges = Inr res"
  shows "\<exists>order. res = map Some order \<and> distinct order \<and>
           set order = fst ` set edges \<union> snd ` set edges \<and> topo (set edges) order"
proof -
  let ?nodes = "uniqueNodes edges"
  let ?st = "\<lparr>cursor = int (length ?nodes), sorted_arr = replicate (length ?nodes) None,
              visited = {}\<rparr>"
  from assms obtain st' where run: "visit_roots edges ?nodes (length ?nodes) ?st = Inr st'"
    and res: "res = sorted_arr st'"
    by (auto simp: toposort_def Let_def split: sum.splits)
  have inv0: "dfs_inv ?nodes edges [] [] ?st"
    by (simp add: dfs_inv_def)
  have closed: "snd ` set edges \<subseteq> set ?nodes"
    by (simp add: set_uniqueNodes)
  from visit_roots_inv [OF inv0 distinct_uniqueNodes closed le_refl run] obtain order where
    inv: "dfs_inv ?nodes edges [] order st'" and all: "\<forall>i<length ?nodes. ?nodes ! i \<in> set order"
    by auto
  from all have "set ?nodes \<subseteq> set order"
    by (auto simp: in_set_conv_nth)
  with inv have eq: "set order = set ?nodes" and d: "distinct order"
    by (auto simp: dfs_inv_def)
  then have "length order = length ?nodes"
    using distinct_uniqueNodes [of edges] by (metis distinct_card)
  with inv res have "res = map Some order"
    by (simp add: dfs_inv_def)
  with inv eq d show ?thesis
    by (auto simp: dfs_inv_def set_uniqueNodes)
qed

lemma toposort_Inr_acyclic:
  assumes "toposort edges = Inr res"
  shows "(x, x) \<notin> (set edges)\<^sup>+"
proof -
  from toposort_Inr [OF assms] obtain order where
    "distinct order" "set order = fst ` set edges \<union> snd ` set edges" "topo (set edges) order"
    by blast
  then show ?thesis
    using topo_acyclic [of "set edges" order x] by simp
qed

subsection \<open>When toposort throws\<close>

lemma chain_append_edge:
  "chain E (xs @ [x]) \<Longrightarrow> (x, y) \<in> E \<Longrightarrow> chain E ((xs @ [x]) @ [y])"
  by (induction E xs rule: chain.induct) auto

lemma chain_suffix: "chain E (xs @ ys) \<Longrightarrow> chain E ys"
proof (induction xs)
  case Nil
  then show ?case by simp
next
  case (Cons x xs)
  then show ?case by (cases "xs @ ys") auto
qed

lemma chain_trancl: "chain E (x # xs @ [y]) \<Longrightarrow> (x, y) \<in> E\<^sup>+"
proof (induction xs arbitrary: x)
  case Nil
  then show ?case by auto
next
  case (Cons z zs)
  then have "(x, z) \<in> E" "(z, y) \<in> E\<^sup>+" by auto
  then show ?case by (rule trancl_into_trancl2)
qed

lemma chain_back_to_pred:
  assumes "chain E (preds @ [node])" and "node \<in> set preds"
  shows "(node, node) \<in> E\<^sup>+"
proof -
  from assms(2) obtain as bs where "preds = as @ node # bs"
    by (auto simp: in_set_conv_decomp)
  with assms(1) have "chain E (as @ (node # bs @ [node]))" by simp
  then have "chain E (node # bs @ [node])" by (rule chain_suffix)
  then show ?thesis by (rule chain_trancl)
qed

lemma visit_visit_outgoing_Inl:
  "snd ` set edges \<subseteq> set nodes \<Longrightarrow> node \<in> set nodes \<Longrightarrow> chain (set edges) (preds @ [node]) \<Longrightarrow>
   visit edges nodes node i preds st = Inl e \<Longrightarrow>
   \<exists>x. e = CyclicDependency x \<and> (x, x) \<in> (set edges)\<^sup>+"
  "snd ` set edges \<subseteq> set nodes \<Longrightarrow> snd ` set outgoing \<subseteq> set nodes \<Longrightarrow>
   \<forall>edge\<in>set outgoing. chain (set edges) (preds @ [snd edge]) \<Longrightarrow>
   visit_outgoing edges nodes outgoing preds st = Inl e \<Longrightarrow>
   \<exists>x. e = CyclicDependency x \<and> (x, x) \<in> (set edges)\<^sup>+"
proof (induction edges nodes node i preds st and edges nodes outgoing preds st
    arbitrary: e and e rule: visit_visit_outgoing.induct)
  case (1 edges nodes node i predecessors st)
  note closed = "1.prems"(1) and node = "1.prems"(2) and path = "1.prems"(3)
    and run = "1.prems"(4)
  show ?case
  proof (cases "node \<in> set predecessors")
    case True
    with run have "e = CyclicDependency node"
      by (simp add: visit.simps [of edges nodes node i predecessors st] indexOf_nonneg_iff)
    with chain_back_to_pred [OF path True] show ?thesis by blast
  next
    case False
    let ?out = "rev (filter (\<lambda>edge. fst edge = node) edges)"
    let ?st1 = "st\<lparr>visited := insert i (visited st)\<rparr>"
    from run node False have unvisited: "i \<notin> visited st"
      and out: "visit_outgoing edges nodes ?out (predecessors @ [node]) ?st1 = Inl e"
      by (auto simp: visit.simps [of edges nodes node i predecessors st] indexOf_nonneg_iff
          indexOf_neg_iff split: if_splits sum.splits)
    have cond: "\<not> 0 \<le> indexOf predecessors node" "\<not> indexOf nodes node < 0"
      using False node by (simp_all add: indexOf_nonneg_iff indexOf_neg_iff)
    have "\<forall>edge\<in>set ?out. chain (set edges) ((predecessors @ [node]) @ [snd edge])"
    proof
      fix edge assume "edge \<in> set ?out"
      then have "(node, snd edge) \<in> set edges" by auto
      with path show "chain (set edges) ((predecessors @ [node]) @ [snd edge])"
        by (rule chain_append_edge)
    qed
    moreover have "snd ` set ?out \<subseteq> set nodes"
      using closed by auto
    ultimately show ?thesis
      using "1.IH" [OF cond unvisited closed _ _ out] by blast
  qed
next
  case (2 edges nodes preds st)
  then show ?case by simp
next
  case (3 edges nodes edge outgoing preds st)
  note closed = "3.prems"(1) and sub = "3.prems"(2) and paths = "3.prems"(3)
    and run = "3.prems"(4)
  from sub have child: "snd edge \<in> set nodes" and sub': "snd ` set outgoing \<subseteq> set nodes"
    by auto
  from paths have path: "chain (set edges) (preds @ [snd edge])"
    and paths': "\<forall>edge\<in>set outgoing. chain (set edges) (preds @ [snd edge])"
    by simp_all
  show ?case
  proof (cases "visit edges nodes (snd edge) (indexOf nodes (snd edge)) preds st")
    case (Inl e')
    with run have "e = e'" by simp
    with "3.IH"(1) [OF closed child path Inl] show ?thesis by simp
  next
    case (Inr st1)
    with run have "visit_outgoing edges nodes outgoing preds st1 = Inl e" by simp
    from "3.IH"(2) [OF Inr closed sub' paths' this] show ?thesis .
  qed
qed


lemma visit_roots_Inl:
  "snd ` set edges \<subseteq> set nodes \<Longrightarrow> k \<le> length nodes \<Longrightarrow>
   visit_roots edges nodes k st = Inl e \<Longrightarrow>
   \<exists>x. e = CyclicDependency x \<and> (x, x) \<in> (set edges)\<^sup>+"
proof (induction k arbitrary: st)
  case 0
  then show ?case by simp
next
  case (Suc k)
  then have node: "nodes ! k \<in> set nodes" and k: "k \<le> length nodes" by simp_all
  show ?case
  proof (cases "int k \<in> visited st")
    case True
    with Suc.prems(3) have "visit_roots edges nodes k st = Inl e" by simp
    from Suc.IH [OF Suc.prems(1) k this] show ?thesis .
  next
    case False
    show ?thesis
    proof (cases "visit edges nodes (nodes ! k) (int k) [] st")
      case (Inl e')
      with False Suc.prems(3) have "e = e'" by simp
      with visit_visit_outgoing_Inl(1) [OF Suc.prems(1) node _ Inl] show ?thesis by simp
    next
      case (Inr st1)
      with False Suc.prems(3) have "visit_roots edges nodes k st1 = Inl e" by simp
      from Suc.IH [OF Suc.prems(1) k this] show ?thesis .
    qed
  qed
qed

text \<open>What \<open>toposort\<close> throws: the cyclic-dependency error, naming a node that lies on a cycle.\<close>

lemma toposort_Inl:
  assumes "toposort edges = Inl e"
  shows "\<exists>x. e = CyclicDependency x \<and> (x, x) \<in> (set edges)\<^sup>+"
proof -
  let ?nodes = "uniqueNodes edges"
  from assms obtain st where "visit_roots edges ?nodes (length ?nodes) st = Inl e"
    by (auto simp: toposort_def Let_def split: sum.splits)
  moreover have "snd ` set edges \<subseteq> set ?nodes"
    by (simp add: set_uniqueNodes)
  ultimately show ?thesis
    using visit_roots_Inl [of edges ?nodes "length ?nodes" st e] by simp
qed

text \<open>\<open>toposort\<close> returns exactly when the graph has no cycle.\<close>

lemma toposort_returns_iff:
  "(\<exists>res. toposort edges = Inr res) \<longleftrightarrow> (\<forall>x. (x, x) \<notin> (set edges)\<^sup>+)"
proof
  assume "\<exists>res. toposort edges = Inr res"
  then show "\<forall>x. (x, x) \<notin> (set edges)\<^sup>+"
    using toposort_Inr_acyclic by blast
next
  assume acyclic: "\<forall>x. (x, x) \<notin> (set edges)\<^sup>+"
  show "\<exists>res. toposort edges = Inr res"
  proof (cases "toposort edges")
    case (Inl e)
    from toposort_Inl [OF this] acyclic show ?thesis by blast
  next
    case (Inr res)
    then show ?thesis by blast
  qed
qed


subsection \<open>The dependency graphs of a subject list\<close>

lemma foldl_relations_set:
  "set (foldl (\<lambda>deps relation. if skip relation then deps else deps @ [f relation]) acc rs) =
   set acc \<union> f ` {r \<in> set rs. \<not> skip r}"
  by (induction rs arbitrary: acc) auto

lemma foldl_thrown:
  "(\<And>x. F (Inl e) x = Inl e) \<Longrightarrow> foldl F (Inl e) xs = Inl e"
  by (induction xs) simp_all

lemma foldl_metadatas:
  "foldl (\<lambda>acc metadata.
            case acc of
              Inl e \<Rightarrow> Inl e
            | Inr dependencies \<Rightarrow>
                (case metadata of
                   None \<Rightarrow> Inl TypeError
                 | Some m \<Rightarrow> Inr (g dependencies m)))
     (Inr deps) ms =
   (if None \<in> set ms then Inl TypeError else Inr (foldl g deps (map the ms)))"
proof (induction ms arbitrary: deps)
  case Nil
  then show ?case by simp
next
  case (Cons metadata ms)
  show ?case
  proof (cases metadata)
    case None
    then show ?thesis
      by (simp add: foldl_thrown)
  next
    case (Some m)
    with Cons.IH [of "g deps m"] show ?thesis by simp
  qed
qed

lemma set_nonNullable_edges:
  "set (foldl (\<lambda>dependencies m.
              foldl (\<lambda>deps relation.
                       if isNullable relation then deps
                       else deps @ [(targetName (metadataAt objs m),
                                     targetName (metadataAt objs (inverseEntityMetadata relation)))])
                dependencies (relationsWithJoinColumns (metadataAt objs m))) acc ms) =
   set acc \<union> {(targetName (metadataAt objs m), targetName (metadataAt objs (inverseEntityMetadata r))) | m r.
        m \<in> set ms \<and> r \<in> set (relationsWithJoinColumns (metadataAt objs m)) \<and> \<not> isNullable r}"
proof (induction ms arbitrary: acc)
  case Nil
  then show ?case by simp
next
  case (Cons m ms)
  show ?case
    unfolding foldl_Cons Cons.IH foldl_relations_set by auto
qed

lemma set_other_edges:
  "set (foldl (\<lambda>dependencies m.
              foldl (\<lambda>deps relation.
                       if inverseEntityMetadata relation = m then deps
                       else deps @ [(targetName (metadataAt objs m),
                                     targetName (metadataAt objs (inverseEntityMetadata relation)))])
                dependencies (relationsWithJoinColumns (metadataAt objs m))) acc ms) =
   set acc \<union> {(targetName (metadataAt objs m), targetName (metadataAt objs (inverseEntityMetadata r))) | m r.
        m \<in> set ms \<and> r \<in> set (relationsWithJoinColumns (metadataAt objs m)) \<and>
        inverseEntityMetadata r \<noteq> m}"
proof (induction ms arbitrary: acc)
  case Nil
  then show ?case by simp
next
  case (Cons m ms)
  show ?case
    unfolding foldl_Cons Cons.IH foldl_relations_set by auto
qed

lemma the_image_defined: "None \<notin> set ms \<Longrightarrow> m \<in> set (map the ms) \<longleftrightarrow> Some m \<in> set ms"
  by (induction ms) auto

text \<open>Building a graph throws exactly when one of the metadatas is \<open>undefined\<close>.\<close>

lemma getNonNullableDependencies_None:
  "None \<in> set ms \<Longrightarrow> getNonNullableDependencies objs ms = Inl TypeError"
  by (simp add: getNonNullableDependencies_def foldl_metadatas)

lemma getDependencies_None:
  "None \<in> set ms \<Longrightarrow> getDependencies objs ms = Inl TypeError"
  by (simp add: getDependencies_def foldl_metadatas)

lemma getNonNullableDependencies_Some:
  assumes "None \<notin> set ms"
  shows "\<exists>deps. getNonNullableDependencies objs ms = Inr deps \<and>
     set deps =
     {(targetName (metadataAt objs m), targetName (metadataAt objs (inverseEntityMetadata r))) | m r.
        Some m \<in> set ms \<and> r \<in> set (relationsWithJoinColumns (metadataAt objs m)) \<and> \<not> isNullable r}"
  using assms
  by (simp add: getNonNullableDependencies_def foldl_metadatas set_nonNullable_edges
      the_image_defined del: set_map)

lemma getDependencies_Some:
  assumes "None \<notin> set ms"
  shows "\<exists>deps. getDependencies objs ms = Inr deps \<and>
     set deps =
     {(targetName (metadataAt objs m), targetName (metadataAt objs (inverseEntityMetadata r))) | m r.
        Some m \<in> set ms \<and> r \<in> set (relationsWithJoinColumns (metadataAt objs m)) \<and>
        inverseEntityMetadata r \<noteq> m}"
  using assms
  by (simp add: getDependencies_def foldl_metadatas set_other_edges
      the_image_defined del: set_map)

lemma getNonNullableDependencies_thrown:
  "getNonNullableDependencies objs ms = Inl e \<Longrightarrow> e = TypeError \<and> None \<in> set ms"
  using getNonNullableDependencies_Some [of ms objs] getNonNullableDependencies_None [of ms objs]
  by (cases "None \<in> set ms") auto

lemma getDependencies_thrown:
  "getDependencies objs ms = Inl e \<Longrightarrow> e = TypeError \<and> None \<in> set ms"
  using getDependencies_Some [of ms objs] getDependencies_None [of ms objs]
  by (cases "None \<in> set ms") auto

lemma nonNullableGraph_Inr:
  "getNonNullableDependencies objs (getUniqueMetadatas objs subjs) = Inr deps \<Longrightarrow>
   nonNullableGraph objs subjs = deps"
  by (simp add: nonNullableGraph_def)

lemma fullGraph_Inr:
  "getDependencies objs (getUniqueMetadatas objs subjs) = Inr deps \<Longrightarrow>
   fullGraph objs subjs = deps"
  by (simp add: fullGraph_def)

lemma carried_metadatas:
  "\<forall>s\<in>set subjs. metadata (subjectAt objs s) \<noteq> None \<Longrightarrow>
   None \<notin> set (getUniqueMetadatas objs subjs)"
  by (auto simp: set_getUniqueMetadatas)

lemma nonNullableGraph_built:
  assumes "\<forall>s\<in>set subjs. metadata (subjectAt objs s) \<noteq> None"
  shows "getNonNullableDependencies objs (getUniqueMetadatas objs subjs) =
           Inr (nonNullableGraph objs subjs)"
  using getNonNullableDependencies_Some [OF carried_metadatas [OF assms], of objs]
  by (auto simp: nonNullableGraph_def)

lemma fullGraph_built:
  assumes "\<forall>s\<in>set subjs. metadata (subjectAt objs s) \<noteq> None"
  shows "getDependencies objs (getUniqueMetadatas objs subjs) = Inr (fullGraph objs subjs)"
  using getDependencies_Some [OF carried_metadatas [OF assms], of objs]
  by (auto simp: fullGraph_def)

lemma set_nonNullableGraph:
  assumes "\<forall>s\<in>set subjs. metadata (subjectAt objs s) \<noteq> None"
  shows "set (nonNullableGraph objs subjs) =
     {(targetName (metadataAt objs m), targetName (metadataAt objs (inverseEntityMetadata r))) | m r.
        Some m \<in> (\<lambda>s. metadata (subjectAt objs s)) ` set subjs \<and>
        r \<in> set (relationsWithJoinColumns (metadataAt objs m)) \<and> \<not> isNullable r}"
proof -
  from getNonNullableDependencies_Some [OF carried_metadatas [OF assms], of objs] obtain deps where
    "getNonNullableDependencies objs (getUniqueMetadatas objs subjs) = Inr deps"
    "set deps =
     {(targetName (metadataAt objs m), targetName (metadataAt objs (inverseEntityMetadata r))) | m r.
        Some m \<in> set (getUniqueMetadatas objs subjs) \<and>
        r \<in> set (relationsWithJoinColumns (metadataAt objs m)) \<and> \<not> isNullable r}"
    by blast
  then show ?thesis
    by (simp add: nonNullableGraph_def set_getUniqueMetadatas)
qed

lemma set_fullGraph:
  assumes "\<forall>s\<in>set subjs. metadata (subjectAt objs s) \<noteq> None"
  shows "set (fullGraph objs subjs) =
     {(targetName (metadataAt objs m), targetName (metadataAt objs (inverseEntityMetadata r))) | m r.
        Some m \<in> (\<lambda>s. metadata (subjectAt objs s)) ` set subjs \<and>
        r \<in> set (relationsWithJoinColumns (metadataAt objs m)) \<and> inverseEntityMetadata r \<noteq> m}"
proof -
  from getDependencies_Some [OF carried_metadatas [OF assms], of objs] obtain deps where
    "getDependencies objs (getUniqueMetadatas objs subjs) = Inr deps"
    "set deps =
     {(targetName (metadataAt objs m), targetName (metadataAt objs (inverseEntityMetadata r))) | m r.
        Some m \<in> set (getUniqueMetadatas objs subjs) \<and>
        r \<in> set (relationsWithJoinColumns (metadataAt objs m)) \<and> inverseEntityMetadata r \<noteq> m}"
    by blast
  then show ?thesis
    by (simp add: fullGraph_def set_getUniqueMetadatas)
qed

subsection \<open>The outcomes of \<open>sort\<close> on a new sorter\<close>

lemma sorted_subjects_Nil: "sorted_subjects objs [] direction = Inr []"
  by (simp add: sorted_subjects_def sort_subjects_def constructor_def getUniqueMetadatas_def)

text \<open>A subject without metadata in the list: the first graph cannot be built.\<close>

lemma sorted_subjects_TypeError:
  assumes "s \<in> set subjs" and "metadata (subjectAt objs s) = None"
  shows "sorted_subjects objs subjs direction = Inl TypeError"
proof -
  from assms have none: "None \<in> set (getUniqueMetadatas objs subjs)"
    by (force simp: set_getUniqueMetadatas)
  then have "getUniqueMetadatas objs subjs \<noteq> []" by auto
  with getNonNullableDependencies_None [OF none, of objs] show ?thesis
    by (simp add: sorted_subjects_def sort_subjects_def constructor_def Let_def
        split: prod.splits)
qed

text \<open>
  The steps of a run on subjects that all carry a metadata: no filter throws, and the
  outcome is decided by the two calls of \<open>toposort\<close>.
\<close>

lemma matches_defined:
  assumes "\<forall>s\<in>set subjs. metadata (subjectAt objs s) \<noteq> None" and "set ws \<subseteq> set subjs"
  shows "\<forall>s\<in>set ws. \<forall>t. \<exists>keep. matchesTargetOrAncestor objs t s = Inr keep"
    and "\<forall>s\<in>set ws. \<forall>t. \<exists>keep. matchesTarget objs t s = Inr keep"
  using assms
  by (auto simp: matchesTargetOrAncestor_def matchesTarget_def split: option.splits)

lemma sorted_subjects_steps:
  assumes "sorted_subjects objs subjs direction = Inr res" and "subjs \<noteq> []"
  obtains t1 s1 w1 t2 s2 w2 where
    "getNonNullableDependencies objs (getUniqueMetadatas objs subjs) =
       Inr (nonNullableGraph objs subjs)"
    "toposort (nonNullableGraph objs subjs) = Inr t1"
    "collectTargets (matchesTargetOrAncestor objs) (if direction = Insert then rev t1 else t1)
       (if direction = Delete then filter (isJunction objs) subjs else [],
        if direction = Delete then filter (\<lambda>s. \<not> isJunction objs s) subjs else subjs) =
       (Inr s1, w1)"
    "getDependencies objs (getUniqueMetadatas objs subjs) = Inr (fullGraph objs subjs)"
    "toposort (fullGraph objs subjs) = Inr t2"
    "collectTargets (matchesTarget objs) (if direction = Insert then rev t2 else t2) (s1, w1) =
       (Inr s2, w2)"
    "res = s2 @ w2"
proof -
  from assms(1) obtain this' where
    run: "sort_subjects objs (constructor objs subjs) direction = (Inr res, this')"
    by (cases "sort_subjects objs (constructor objs subjs) direction") (simp add: sorted_subjects_def)
  from assms(2) have "metadatas (constructor objs subjs) \<noteq> []"
    using getUniqueMetadatas_empty [of objs subjs] by (auto simp: constructor_def)
  from sort_subjects_steps [OF run this] obtain d1 t1 s1 w1 d2 t2 s2 w2 where
    steps: "getNonNullableDependencies objs (getUniqueMetadatas objs subjs) = Inr d1"
      "toposort d1 = Inr t1"
      "collectTargets (matchesTargetOrAncestor objs) (if direction = Insert then rev t1 else t1)
         (if direction = Delete then filter (isJunction objs) subjs else [],
          if direction = Delete then filter (\<lambda>s. \<not> isJunction objs s) subjs else subjs) =
         (Inr s1, w1)"
      "getDependencies objs (getUniqueMetadatas objs subjs) = Inr d2"
      "toposort d2 = Inr t2"
      "collectTargets (matchesTarget objs) (if direction = Insert then rev t2 else t2) (s1, w1) =
         (Inr s2, w2)"
      "res = s2 @ w2"
    unfolding constructor_def by (simp only: sorter.simps) blast
  from steps(1) have d1: "nonNullableGraph objs subjs = d1" by (rule nonNullableGraph_Inr)
  from steps(4) have d2: "fullGraph objs subjs = d2" by (rule fullGraph_Inr)
  from steps show ?thesis
    unfolding d1 [symmetric] d2 [symmetric] by (rule that)
qed

lemma sorted_subjects_outcome:
  assumes "subjs \<noteq> []" and carried: "\<forall>s\<in>set subjs. metadata (subjectAt objs s) \<noteq> None"
  shows "case sorted_subjects objs subjs direction of
           Inl e \<Rightarrow> toposort (nonNullableGraph objs subjs) = Inl e \<or>
                    toposort (fullGraph objs subjs) = Inl e
         | Inr res \<Rightarrow> (\<exists>t1. toposort (nonNullableGraph objs subjs) = Inr t1) \<and>
                      (\<exists>t2. toposort (fullGraph objs subjs) = Inr t2)"
proof -
  let ?sorted0 = "if direction = Delete then filter (isJunction objs) subjs else []"
  let ?subjects0 = "if direction = Delete then filter (\<lambda>s. \<not> isJunction objs s) subjs else subjs"
  from assms(1) have meta: "getUniqueMetadatas objs subjs \<noteq> []"
    using getUniqueMetadatas_empty by blast
  note d1 = nonNullableGraph_built [OF carried]
  note d2 = fullGraph_built [OF carried]
  have start: "(if direction = Delete
       then (let junctionSubjects = filter (isJunction objs) subjs
             in (junctionSubjects, removeAlreadySorted subjs junctionSubjects))
       else ([], subjs)) = (?sorted0, ?subjects0)"
    by (simp add: Let_def removeAlreadySorted_filter)
  have sub0: "set ?subjects0 \<subseteq> set subjs" by auto
  show ?thesis
  proof (cases "toposort (nonNullableGraph objs subjs)")
    case (Inl e)
    with meta d1 have "sorted_subjects objs subjs direction = Inl e"
      unfolding sorted_subjects_def sort_subjects_def constructor_def
      by (simp add: Let_def split: prod.splits)
    with Inl show ?thesis by simp
  next
    case t1: (Inr t1)
    let ?t1 = "if direction = Insert then rev t1 else t1"
    from collectTargets_total [OF matches_defined(1) [OF carried sub0]] obtain s1 w1 where
      c1: "collectTargets (matchesTargetOrAncestor objs) ?t1 (?sorted0, ?subjects0) = (Inr s1, w1)"
      by blast
    from collectTargets_appends [OF c1] have "set w1 \<subseteq> set ?subjects0"
      by (metis mset_subset_eqD mset_subset_eq_add_right set_mset_mset subsetI)
    with sub0 have sub1: "set w1 \<subseteq> set subjs" by blast
    show ?thesis
    proof (cases "toposort (fullGraph objs subjs)")
      case (Inl e)
      with meta d1 d2 t1 c1 have "sorted_subjects objs subjs direction = Inl e"
        unfolding sorted_subjects_def sort_subjects_def constructor_def sorter.simps start
        by simp
      with Inl show ?thesis by simp
    next
      case t2: (Inr t2)
      let ?t2 = "if direction = Insert then rev t2 else t2"
      from collectTargets_total [OF matches_defined(2) [OF carried sub1]] obtain s2 w2 where
        c2: "collectTargets (matchesTarget objs) ?t2 (s1, w1) = (Inr s2, w2)"
        by blast
      with meta d1 d2 t1 t2 c1 have "sorted_subjects objs subjs direction = Inr (s2 @ w2)"
        unfolding sorted_subjects_def sort_subjects_def constructor_def sorter.simps start
        by simp
      with t1 t2 show ?thesis by simp
    qed
  qed
qed

lemma sorted_subjects_Inl:
  assumes "sorted_subjects objs subjs direction = Inl e"
    and "\<forall>s\<in>set subjs. metadata (subjectAt objs s) \<noteq> None"
  shows "\<exists>node. e = CyclicDependency node \<and>
           ((node, node) \<in> (set (nonNullableGraph objs subjs))\<^sup>+ \<or>
            (node, node) \<in> (set (fullGraph objs subjs))\<^sup>+)"
proof -
  from assms(1) have "subjs \<noteq> []"
    using sorted_subjects_Nil [of objs direction] by auto
  from sorted_subjects_outcome [OF this assms(2), of direction] assms(1)
  have "toposort (nonNullableGraph objs subjs) = Inl e \<or> toposort (fullGraph objs subjs) = Inl e"
    by simp
  then show ?thesis
    using toposort_Inl by blast
qed

lemma sorted_subjects_returns:
  assumes "\<forall>s\<in>set subjs. metadata (subjectAt objs s) \<noteq> None"
    and "\<forall>x. (x, x) \<notin> (set (nonNullableGraph objs subjs))\<^sup>+"
    and "\<forall>x. (x, x) \<notin> (set (fullGraph objs subjs))\<^sup>+"
  shows "\<exists>res. sorted_subjects objs subjs direction = Inr res"
proof (cases "sorted_subjects objs subjs direction")
  case (Inl e)
  from sorted_subjects_Inl [OF this assms(1)] assms(2,3) show ?thesis by blast
next
  case (Inr res)
  then show ?thesis by blast
qed

lemma sorted_subjects_cycle:
  assumes "\<forall>s\<in>set subjs. metadata (subjectAt objs s) \<noteq> None"
    and "\<not> ((\<forall>x. (x, x) \<notin> (set (nonNullableGraph objs subjs))\<^sup>+) \<and>
              (\<forall>x. (x, x) \<notin> (set (fullGraph objs subjs))\<^sup>+))"
  shows "\<exists>node. sorted_subjects objs subjs direction = Inl (CyclicDependency node) \<and>
           ((node, node) \<in> (set (nonNullableGraph objs subjs))\<^sup>+ \<or>
            (node, node) \<in> (set (fullGraph objs subjs))\<^sup>+)"
proof (cases "sorted_subjects objs subjs direction")
  case (Inl e)
  from sorted_subjects_Inl [OF this assms(1)] Inl show ?thesis by blast
next
  case (Inr res)
  have "subjs \<noteq> []"
  proof
    assume "subjs = []"
    then have "set (nonNullableGraph objs subjs) = {}" "set (fullGraph objs subjs) = {}"
      by (simp_all add: nonNullableGraph_def fullGraph_def getUniqueMetadatas_def
          getNonNullableDependencies_def getDependencies_def)
    with assms(2) show False by simp
  qed
  from sorted_subjects_outcome [OF this assms(1), of direction] Inr obtain t1 t2 where
    "toposort (nonNullableGraph objs subjs) = Inr t1" "toposort (fullGraph objs subjs) = Inr t2"
    by auto
  then have "\<forall>x. (x, x) \<notin> (set (nonNullableGraph objs subjs))\<^sup>+"
    "\<forall>x. (x, x) \<notin> (set (fullGraph objs subjs))\<^sup>+"
    using toposort_Inr_acyclic by blast+
  with assms(2) show ?thesis by blast
qed




lemma single_edge_acyclic:
  assumes "E \<subseteq> {(a, b)}" and "a \<noteq> b"
  shows "(x, x) \<notin> E\<^sup>+"
proof
  assume "(x, x) \<in> E\<^sup>+"
  then have "(x, x) \<in> {(a, b)}\<^sup>+"
    using trancl_mono [OF _ assms(1)] by blast
  then show False
    using assms(2) by (auto simp: trancl_insert)
qed

subsection \<open>Which pass takes a subject\<close>

lemma collectTargets_append:
  "collectTargets matches (ts1 @ ts2) p =
     (case collectTargets matches ts1 p of
        (Inl e, ws) \<Rightarrow> (Inl e, ws)
      | (Inr acc, ws) \<Rightarrow> collectTargets matches ts2 (acc, ws))"
proof (induction ts1 arbitrary: p)
  case Nil
  then show ?case by (cases p) simp
next
  case (Cons t ts1)
  obtain acc ws where p: "p = (acc, ws)" by (cases p)
  show ?case
    by (cases t) (simp_all add: p Cons.IH split: sum.splits)
qed

lemma collectTargets_append_Inr:
  assumes "collectTargets matches (ts1 @ ts2) p = (Inr acc', ws')"
  obtains acc1 ws1 where "collectTargets matches ts1 p = (Inr acc1, ws1)"
    and "collectTargets matches ts2 (acc1, ws1) = (Inr acc', ws')"
  using assms unfolding collectTargets_append
  by (auto split: prod.splits sum.splits)

lemma collectTargets_taken:
  "collectTargets matches targets (acc, ws) = (Inr acc', ws') \<Longrightarrow>
   \<exists>xs. acc' = acc @ xs \<and>
     set xs = {s \<in> set ws. \<exists>t. Some t \<in> set targets \<and> matches t s = Inr True} \<and>
     set ws' = {s \<in> set ws. \<not> (\<exists>t. Some t \<in> set targets \<and> matches t s = Inr True)}"
proof (induction targets arbitrary: acc ws)
  case Nil
  then show ?case by simp
next
  case (Cons t targets)
  show ?case
  proof (cases t)
    case None
    with Cons.prems have "collectTargets matches targets (acc, ws) = (Inr acc', ws')" by simp
    from Cons.IH [OF this] None show ?thesis by simp
  next
    case (Some name)
    let ?hit = "filter (\<lambda>s. matches name s = Inr True) ws"
    let ?left = "filter (\<lambda>s. matches name s \<noteq> Inr True) ws"
    from Cons.prems Some
    have "collectTargets matches targets (acc @ ?hit, ?left) = (Inr acc', ws')"
      using collectTargets_Some_Inr by blast
    from Cons.IH [OF this] obtain xs where
      xs: "acc' = (acc @ ?hit) @ xs"
        "set xs = {s \<in> set ?left. \<exists>t. Some t \<in> set targets \<and> matches t s = Inr True}"
        "set ws' = {s \<in> set ?left. \<not> (\<exists>t. Some t \<in> set targets \<and> matches t s = Inr True)}"
      by blast
    have "acc' = acc @ (?hit @ xs)" using xs(1) by simp
    moreover have "set (?hit @ xs) =
        {s \<in> set ws. \<exists>t'. Some t' \<in> set (t # targets) \<and> matches t' s = Inr True}"
      using xs(2) Some by auto
    moreover have "set ws' =
        {s \<in> set ws. \<not> (\<exists>t'. Some t' \<in> set (t # targets) \<and> matches t' s = Inr True)}"
      using xs(3) Some by auto
    ultimately show ?thesis by blast
  qed
qed

text \<open>
  Dependencies first on insert. If the metadata of subject \<open>sA\<close> has a non-nullable
  relation to the metadata of subject \<open>sB\<close>, and no other name of its inheritance tree
  is a node of the non-nullable graph, every occurrence of \<open>sB\<close> in the result comes
  before every occurrence of \<open>sA\<close>.
\<close>

lemma insert_dependency_first:
  assumes run: "sorted_subjects objs subjs Insert = Inr res"
    and sA: "sA \<in> set subjs" and sB: "sB \<in> set subjs"
    and mA: "metadata (subjectAt objs sA) = Some mA"
    and mB: "metadata (subjectAt objs sB) = Some mB"
    and a: "a = targetName (metadataAt objs mA)"
    and b: "b = targetName (metadataAt objs mB)"
    and edge: "(a, b) \<in> set (nonNullableGraph objs subjs)"
    and tree: "\<forall>z\<in>set (inheritanceTree (metadataAt objs mA)).
                 z \<noteq> a \<longrightarrow> z \<notin> fst ` set (nonNullableGraph objs subjs) \<union>
                                  snd ` set (nonNullableGraph objs subjs)"
  shows "\<exists>pre post. res = pre @ post \<and> sB \<in> set pre \<and> sB \<notin> set post \<and>
           sA \<in> set post \<and> sA \<notin> set pre"
proof -
  let ?m = "matchesTargetOrAncestor objs"
  let ?nn = "nonNullableGraph objs subjs"
  from sA have nonempty: "subjs \<noteq> []" by auto
  obtain t1 acc2 ws2 t2 acc3 ws3 where
    t1: "toposort ?nn = Inr t1"
    and first: "collectTargets ?m (rev t1) ([], subjs) = (Inr acc2, ws2)"
    and c3: "collectTargets (matchesTarget objs) (rev t2) (acc2, ws2) = (Inr acc3, ws3)"
    and res: "res = acc3 @ ws3"
    by (rule sorted_subjects_steps [OF run nonempty]) simp
  from toposort_Inr [OF t1] obtain order where
    order: "t1 = map Some order" "distinct order"
      "set order = fst ` set ?nn \<union> snd ` set ?nn" "topo (set ?nn) order"
    by blast
  from edge order(3) have "a \<in> set order" by force
  from topo_edge [OF order(4) edge this] obtain as bs where
    split: "order = as @ a # bs" and b_after: "b \<in> set bs"
    by blast
  define early where "early = map Some (rev bs)"
  define late where "late = map Some (a # rev as)"
  have targets: "rev t1 = early @ late"
    by (simp add: order(1) split early_def late_def rev_map)
  from first obtain acc1 ws1 where
    c1: "collectTargets ?m early ([], subjs) = (Inr acc1, ws1)"
    and c2: "collectTargets ?m late (acc1, ws1) = (Inr acc2, ws2)"
    unfolding targets by (rule collectTargets_append_Inr)
  from collectTargets_taken [OF c1] have
    acc1: "set acc1 = {s \<in> set subjs. \<exists>t. Some t \<in> set early \<and> ?m t s = Inr True}"
    and ws1: "set ws1 = {s \<in> set subjs. \<not> (\<exists>t. Some t \<in> set early \<and> ?m t s = Inr True)}"
    by auto
  from collectTargets_appends [OF c2] obtain xs where
    xs: "acc2 = acc1 @ xs" "mset xs + mset ws2 = mset ws1" by blast
  from collectTargets_appends [OF c3] obtain ys where
    ys: "acc3 = acc2 @ ys" "mset ys + mset ws3 = mset ws2" by blast
  have post: "mset (xs @ ys @ ws3) = mset ws1"
    using xs(2) ys(2) by (simp add: ac_simps)
  have res': "res = acc1 @ (xs @ ys @ ws3)"
    using res xs(1) ys(1) by simp
  have "?m b sB = Inr True"
    by (simp add: matchesTargetOrAncestor_def b mB)
  moreover have "Some b \<in> set early"
    using b_after by (simp add: early_def)
  ultimately have sB_early: "sB \<in> set acc1" and sB_gone: "sB \<notin> set ws1"
    using sB acc1 ws1 by auto
  have "\<not> (\<exists>t. Some t \<in> set early \<and> ?m t sA = Inr True)"
  proof
    assume "\<exists>t. Some t \<in> set early \<and> ?m t sA = Inr True"
    then obtain t where t: "t \<in> set bs" and m: "?m t sA = Inr True"
      by (auto simp: early_def)
    from t split order(2) have "t \<noteq> a" by auto
    moreover from t split order(3) have "t \<in> fst ` set ?nn \<union> snd ` set ?nn"
      by (metis Un_iff list.set_intros(2) set_append)
    ultimately show False
      using m tree by (auto simp: matchesTargetOrAncestor_def a mA list_ex_iff)
  qed
  then have sA_late: "sA \<notin> set acc1" and sA_left: "sA \<in> set ws1"
    using sA acc1 ws1 by auto
  from post have "set (xs @ ys @ ws3) = set ws1"
    by (rule mset_eq_setD)
  with sA_left sB_gone have "sA \<in> set (xs @ ys @ ws3)" "sB \<notin> set (xs @ ys @ ws3)"
    by simp_all
  with res' sB_early sA_late show ?thesis by blast
qed
subsection \<open>A non-nullable relation of an entity to itself\<close>

text \<open>
  Claim C1 does not hold of the code. \<open>getNonNullableDependencies\<close> skips nullable
  relations only, so a non-nullable self-reference becomes the edge \<open>(C, C)\<close>, which
  \<open>toposort\<close> reports as a cycle; \<open>getDependencies\<close> does skip the self-reference.
\<close>

theorem self_reference_throws:
  "getNonNullableDependencies self_reference_schema
     (getUniqueMetadatas self_reference_schema [0]) = Inr [(''C'', ''C'')] \<and>
   getDependencies self_reference_schema
     (getUniqueMetadatas self_reference_schema [0]) = Inr [] \<and>
   sorted_subjects self_reference_schema [0] Insert = Inl (CyclicDependency ''C'')"
  by code_simp

subsection \<open>The result is a permutation\<close>

text \<open>
  Claim C2, as stated, fails for a list whose entities depend on each other in a cycle:
  \<open>sort\<close> throws, and no list is returned.
\<close>

theorem cyclic_schema_returns_nothing:
  "sorted_subjects cyclic_schema [0, 1] Insert = Inl (CyclicDependency ''B'') \<and>
   \<not> (\<exists>res. sorted_subjects cyclic_schema [0, 1] Insert = Inr res \<and> mset res = mset [0, 1])"
proof -
  have "sorted_subjects cyclic_schema [0, 1] Insert = Inl (CyclicDependency ''B'')"
    by code_simp
  then show ?thesis by simp
qed

text \<open>
  Claim C2, amended. For every list of subjects that each carry a metadata and both
  directions, \<open>sort\<close> either returns a list that holds the same subjects as the input,
  each as often as the input does (nothing added, dropped or duplicated), or throws the
  cyclic-dependency error. It returns when neither dependency graph of the subjects has
  a cycle, and throws, naming a node on a cycle, when one has.
\<close>

theorem sort_permutation:
  assumes "\<forall>s\<in>set subjs. metadata (subjectAt objs s) \<noteq> None"
  shows
  "((\<forall>x. (x, x) \<notin> (set (nonNullableGraph objs subjs))\<^sup>+) \<and>
    (\<forall>x. (x, x) \<notin> (set (fullGraph objs subjs))\<^sup>+) \<longrightarrow>
      (\<exists>res. sorted_subjects objs subjs direction = Inr res \<and> mset res = mset subjs)) \<and>
   (\<not> ((\<forall>x. (x, x) \<notin> (set (nonNullableGraph objs subjs))\<^sup>+) \<and>
       (\<forall>x. (x, x) \<notin> (set (fullGraph objs subjs))\<^sup>+)) \<longrightarrow>
      (\<exists>node. sorted_subjects objs subjs direction = Inl (CyclicDependency node) \<and>
         ((node, node) \<in> (set (nonNullableGraph objs subjs))\<^sup>+ \<or>
          (node, node) \<in> (set (fullGraph objs subjs))\<^sup>+)))"
proof (intro conjI impI)
  assume "(\<forall>x. (x, x) \<notin> (set (nonNullableGraph objs subjs))\<^sup>+) \<and>
    (\<forall>x. (x, x) \<notin> (set (fullGraph objs subjs))\<^sup>+)"
  then obtain res where "sorted_subjects objs subjs direction = Inr res"
    using sorted_subjects_returns [OF assms] by blast
  with sorted_subjects_mset [OF this]
  show "\<exists>res. sorted_subjects objs subjs direction = Inr res \<and> mset res = mset subjs"
    by blast
next
  assume "\<not> ((\<forall>x. (x, x) \<notin> (set (nonNullableGraph objs subjs))\<^sup>+) \<and>
       (\<forall>x. (x, x) \<notin> (set (fullGraph objs subjs))\<^sup>+))"
  then show "\<exists>node. sorted_subjects objs subjs direction = Inl (CyclicDependency node) \<and>
         ((node, node) \<in> (set (nonNullableGraph objs subjs))\<^sup>+ \<or>
          (node, node) \<in> (set (fullGraph objs subjs))\<^sup>+)"
    by (rule sorted_subjects_cycle [OF assms])
qed

theorem sort_permutation_witness:
  "list_all (\<lambda>s. metadata (subjectAt dependent_schema s) \<noteq> None) [0, 2, 1, 3] \<and>
   list_all (\<lambda>s. metadata (subjectAt cyclic_schema s) \<noteq> None) [0, 2, 1] \<and>
   set (nonNullableGraph dependent_schema [0, 2, 1, 3]) = {(''A'', ''B'')} \<and>
   set (fullGraph dependent_schema [0, 2, 1, 3]) = {(''A'', ''B'')} \<and>
   sorted_subjects dependent_schema [0, 2, 1, 3] Delete = Inr [2, 3, 0, 1] \<and>
   mset [2, 3, 0, 1 :: nat] = mset [0, 2, 1, 3] \<and>
   (''A'', ''A'') \<in> (set (nonNullableGraph cyclic_schema [0, 2, 1]))\<^sup>+ \<and>
   sorted_subjects cyclic_schema [0, 2, 1] Delete = Inl (CyclicDependency ''B'')"
proof -
  have run: "sorted_subjects dependent_schema [0, 2, 1, 3] Delete = Inr [2, 3, 0, 1]"
    by code_simp
  have graphs: "set (nonNullableGraph dependent_schema [0, 2, 1, 3]) = {(''A'', ''B'')}"
    "set (fullGraph dependent_schema [0, 2, 1, 3]) = {(''A'', ''B'')}"
    by code_simp+
  have acyclic: "(\<forall>x. (x, x) \<notin> (set (nonNullableGraph dependent_schema [0, 2, 1, 3]))\<^sup>+) \<and>
    (\<forall>x. (x, x) \<notin> (set (fullGraph dependent_schema [0, 2, 1, 3]))\<^sup>+)"
    using single_edge_acyclic [of _ "''A''" "''B''"] graphs by simp
  have "(''A'', ''B'') \<in> set (nonNullableGraph cyclic_schema [0, 2, 1])"
    "(''B'', ''A'') \<in> set (nonNullableGraph cyclic_schema [0, 2, 1])"
    by code_simp+
  then have loop: "(''A'', ''A'') \<in> (set (nonNullableGraph cyclic_schema [0, 2, 1]))\<^sup>+"
    by (rule trancl_into_trancl2 [OF _ r_into_trancl])
  have throw: "sorted_subjects cyclic_schema [0, 2, 1] Delete = Inl (CyclicDependency ''B'')"
    by code_simp
  have carried: "\<forall>s\<in>set [0, 2, 1, 3]. metadata (subjectAt dependent_schema s) \<noteq> None"
    "\<forall>s\<in>set [0, 2, 1]. metadata (subjectAt cyclic_schema s) \<noteq> None"
    by (simp_all add: dependent_schema_def cyclic_schema_def)
  from sort_permutation [OF carried(1), of Delete] acyclic
  have "\<exists>res. sorted_subjects dependent_schema [0, 2, 1, 3] Delete = Inr res \<and>
      mset res = mset [0, 2, 1, 3]"
    by blast
  with run have "mset [2, 3, 0, 1 :: nat] = mset [0, 2, 1, 3]" by simp
  moreover from sort_permutation [OF carried(2), of Delete] loop
  have "\<exists>node. sorted_subjects cyclic_schema [0, 2, 1] Delete = Inl (CyclicDependency node)"
    by blast
  ultimately show ?thesis
    using run graphs loop throw carried by (simp add: list_all_iff)
qed

subsection \<open>Inherited entities in the second pass\<close>

text \<open>
  Claim C3 does not hold of the code. The second pass selects subjects by \<open>targetName\<close>
  alone. With a nullable relation from \<open>X\<close> to \<open>Base\<close>, inserting \<open>[x, derived]\<close> takes
  nothing at \<open>Base\<close> and leaves the \<open>Derived\<close> subject for the end, after \<open>x\<close>; with a
  non-nullable relation the first pass takes it at \<open>Base\<close>, before \<open>x\<close>. Likewise, with a
  nullable relation from \<open>Base\<close> to \<open>Dep\<close>, deleting \<open>[derived, base, dep]\<close> puts the
  \<open>Derived\<close> subject last, after \<open>Dep\<close>, while \<open>Base\<close> comes before \<open>Dep\<close>; with a
  non-nullable relation the first pass puts it at the position of \<open>Base\<close>.
\<close>

theorem second_pass_ignores_inheritance:
  "sorted_subjects (base_reference_schema True) [0, 1] Insert = Inr [0, 1] \<and>
   sorted_subjects (base_reference_schema False) [0, 1] Insert = Inr [1, 0] \<and>
   sorted_subjects (inheritance_schema True) [1, 0, 2] Delete = Inr [0, 2, 1] \<and>
   sorted_subjects (inheritance_schema False) [1, 0, 2] Delete = Inr [1, 0, 2]"
  by code_simp

subsection \<open>Dependencies first on insert\<close>

text \<open>
  Claim C4, as stated, fails when \<open>A\<close> extends \<open>B\<close>: the first pass takes a subject at
  the position of any name of its inheritance tree, so both subjects are taken at \<open>B\<close>,
  in the order of the input, and the subject of \<open>A\<close> stays first.
\<close>

theorem subclass_dependent_stays_first:
  "sorted_subjects subclass_schema [0, 1] Insert = Inr [0, 1]"
  by code_simp

text \<open>
  Claim C4, amended. Two entities \<open>A\<close> and \<open>B\<close> with different target names, one subject
  of each: \<open>A\<close> has a non-nullable relation with a join column to \<open>B\<close>, any other
  relation of \<open>A\<close> leads to \<open>B\<close> or is a nullable self-reference, \<open>B\<close> has no relation to
  \<open>A\<close> (at most nullable self-references), and the target name of \<open>B\<close> is not in the
  inheritance tree of \<open>A\<close>. Then \<open>sort([subjectA, subjectB], insert)\<close> returns
  \<open>[subjectB, subjectA]\<close>.
\<close>

theorem non_nullable_precedence:
  assumes distinct: "mA \<noteq> mB"
    and sA: "metadata (subjectAt objs sA) = Some mA"
    and sB: "metadata (subjectAt objs sB) = Some mB"
    and names: "targetName (metadataAt objs mA) \<noteq> targetName (metadataAt objs mB)"
    and dep: "\<exists>r\<in>set (relationsWithJoinColumns (metadataAt objs mA)).
                inverseEntityMetadata r = mB \<and> \<not> isNullable r"
    and relsA: "\<forall>r\<in>set (relationsWithJoinColumns (metadataAt objs mA)).
                inverseEntityMetadata r = mB \<or> (inverseEntityMetadata r = mA \<and> isNullable r)"
    and relsB: "\<forall>r\<in>set (relationsWithJoinColumns (metadataAt objs mB)).
                inverseEntityMetadata r = mB \<and> isNullable r"
    and tree: "targetName (metadataAt objs mB) \<notin> set (inheritanceTree (metadataAt objs mA))"
  shows "sorted_subjects objs [sA, sB] Insert = Inr [sB, sA]"
proof -
  let ?a = "targetName (metadataAt objs mA)"
  let ?b = "targetName (metadataAt objs mB)"
  let ?subjs = "[sA, sB]"
  have carried: "\<forall>s\<in>set ?subjs. metadata (subjectAt objs s) \<noteq> None"
    using sA sB by simp
  have metas: "(\<lambda>s. metadata (subjectAt objs s)) ` set ?subjs = {Some mA, Some mB}"
    using sA sB by simp
  have nn: "set (nonNullableGraph objs ?subjs) = {(?a, ?b)}"
    unfolding set_nonNullableGraph [OF carried] metas
    using dep relsA relsB by auto
  have full: "set (fullGraph objs ?subjs) \<subseteq> {(?a, ?b)}"
    unfolding set_fullGraph [OF carried] metas
    using relsA relsB by auto
  have "\<forall>x. (x, x) \<notin> (set (nonNullableGraph objs ?subjs))\<^sup>+"
    using single_edge_acyclic [OF _ names] nn by simp
  moreover have "\<forall>x. (x, x) \<notin> (set (fullGraph objs ?subjs))\<^sup>+"
    using single_edge_acyclic [OF full names] by simp
  ultimately obtain res where res: "sorted_subjects objs ?subjs Insert = Inr res"
    using sorted_subjects_returns [OF carried] by blast
  have "\<exists>pre post. res = pre @ post \<and> sB \<in> set pre \<and> sB \<notin> set post \<and>
           sA \<in> set post \<and> sA \<notin> set pre"
  proof (rule insert_dependency_first [OF res])
    show "sA \<in> set ?subjs" "sB \<in> set ?subjs" by simp_all
    show "metadata (subjectAt objs sA) = Some mA" "metadata (subjectAt objs sB) = Some mB"
      by (fact sA sB)+
    show "?a = targetName (metadataAt objs mA)" "?b = targetName (metadataAt objs mB)"
      by simp_all
    show "(?a, ?b) \<in> set (nonNullableGraph objs ?subjs)" by (simp add: nn)
    show "\<forall>z\<in>set (inheritanceTree (metadataAt objs mA)).
            z \<noteq> ?a \<longrightarrow> z \<notin> fst ` set (nonNullableGraph objs ?subjs) \<union>
                             snd ` set (nonNullableGraph objs ?subjs)"
      using tree by (auto simp: nn)
  qed
  then obtain pre post where split: "res = pre @ post" "sB \<in> set pre" "sB \<notin> set post"
    "sA \<in> set post" "sA \<notin> set pre"
    by blast
  from sorted_subjects_mset [OF res] have perm: "mset res = mset ?subjs" .
  then have "length res = 2"
    by (metis length_Cons list.size(3) numeral_2_eq_2 size_mset)
  moreover from split have "pre \<noteq> []" "post \<noteq> []" by auto
  ultimately have "length pre = 1" "length post = 1"
    using split(1) by (cases pre; cases post; simp)+
  then obtain x y where "pre = [x]" "post = [y]"
    by (metis One_nat_def length_0_conv length_Suc_conv)
  with split have "res = [sB, sA]" by simp
  with res show ?thesis by simp
qed

theorem non_nullable_precedence_witness:
  "metadata (subjectAt dependent_schema 0) = Some 0 \<and>
   metadata (subjectAt dependent_schema 1) = Some 1 \<and>
   targetName (metadataAt dependent_schema 0) = ''A'' \<and>
   targetName (metadataAt dependent_schema 1) = ''B'' \<and>
   relationsWithJoinColumns (metadataAt dependent_schema 0) =
     [\<lparr>isNullable = False, inverseEntityMetadata = 1\<rparr>] \<and>
   relationsWithJoinColumns (metadataAt dependent_schema 1) = [] \<and>
   inheritanceTree (metadataAt dependent_schema 0) = [''A''] \<and>
   sorted_subjects dependent_schema [0, 1] Insert = Inr [1, 0]"
proof -
  have facts:
    "metadata (subjectAt dependent_schema 0) = Some 0"
    "metadata (subjectAt dependent_schema 1) = Some 1"
    "targetName (metadataAt dependent_schema 0) = ''A''"
    "targetName (metadataAt dependent_schema 1) = ''B''"
    "relationsWithJoinColumns (metadataAt dependent_schema 0) =
       [\<lparr>isNullable = False, inverseEntityMetadata = 1\<rparr>]"
    "relationsWithJoinColumns (metadataAt dependent_schema 1) = []"
    "inheritanceTree (metadataAt dependent_schema 0) = [''A'']"
    by (simp_all add: dependent_schema_def)
  have "sorted_subjects dependent_schema [0, 1] Insert = Inr [1, 0]"
    by (rule non_nullable_precedence [of 0 1]) (simp_all add: dependent_schema_def)
  with facts show ?thesis by simp
qed

subsection \<open>Cyclic non-nullable relations\<close>


subsection \<open>Junction subjects on delete\<close>

lemma sorted_subjects_Delete:
  assumes "sorted_subjects objs subjs Delete = Inr res"
  shows "\<exists>rest. res = filter (isJunction objs) subjs @ rest \<and>
           mset rest = mset (filter (\<lambda>s. \<not> isJunction objs s) subjs)"
proof -
  from assms obtain this' where
    run: "sort_subjects objs (constructor objs subjs) Delete = (Inr res, this')"
    by (cases "sort_subjects objs (constructor objs subjs) Delete") (simp add: sorted_subjects_def)
  from sort_subjects_Inr [OF run] show ?thesis
  proof
    assume "metadatas (constructor objs subjs) = [] \<and> res = subjects (constructor objs subjs)"
    then have "subjs = []" "res = []"
      using getUniqueMetadatas_empty [of objs subjs] by (auto simp: constructor_def)
    then show ?thesis by simp
  next
    assume "\<exists>rest. res = (if Delete = Delete then filter (isJunction objs) (subjects (constructor objs subjs)) else []) @ rest \<and>
            mset rest = mset (if Delete = Delete
                              then filter (\<lambda>s. \<not> isJunction objs s) (subjects (constructor objs subjs))
                              else subjects (constructor objs subjs))"
    then show ?thesis by (simp add: constructor_def)
  qed
qed

lemma same_metadata_functions:
  assumes "metadataAt objs' = metadataAt objs"
    and "\<forall>s. metadata (subjectAt objs' s) = metadata (subjectAt objs s)"
  shows "getUniqueMetadatas objs' = getUniqueMetadatas objs"
    and "getNonNullableDependencies objs' = getNonNullableDependencies objs"
    and "getDependencies objs' = getDependencies objs"
    and "matchesTargetOrAncestor objs' = matchesTargetOrAncestor objs"
    and "matchesTarget objs' = matchesTarget objs"
proof -
  from assms(2) have m: "\<And>s. metadata (subjectAt objs' s) = metadata (subjectAt objs s)"
    by simp
  show "getUniqueMetadatas objs' = getUniqueMetadatas objs"
    unfolding fun_eq_iff getUniqueMetadatas_def m by simp
  show "getNonNullableDependencies objs' = getNonNullableDependencies objs"
    unfolding fun_eq_iff getNonNullableDependencies_def assms(1) by simp
  show "getDependencies objs' = getDependencies objs"
    unfolding fun_eq_iff getDependencies_def assms(1) by simp
  show "matchesTargetOrAncestor objs' = matchesTargetOrAncestor objs"
    unfolding fun_eq_iff matchesTargetOrAncestor_def assms(1) m by simp
  show "matchesTarget objs' = matchesTarget objs"
    unfolding fun_eq_iff matchesTarget_def assms(1) m by simp
qed

lemma sorted_subjects_Insert_ignores_entities:
  assumes "metadataAt objs' = metadataAt objs"
    and "\<forall>s. metadata (subjectAt objs' s) = metadata (subjectAt objs s)"
  shows "sorted_subjects objs' subjs Insert = sorted_subjects objs subjs Insert"
  unfolding sorted_subjects_def sort_subjects_def constructor_def
    same_metadata_functions [OF assms]
  by (simp cong: if_cong)

text \<open>
  A junction subject may come without metadata. \<open>sort\<close> then extracts it and throws a
  \<open>TypeError\<close> when it builds the first graph, for \<open>this.metadatas\<close> holds \<open>undefined\<close>.
\<close>

lemma junction_without_metadata_throws:
  "filter (isJunction bare_junction_schema) [0, 2, 1] = [2] \<and>
   metadata (subjectAt bare_junction_schema 2) = None \<and>
   sort_subjects bare_junction_schema (constructor bare_junction_schema [0, 2, 1]) Delete =
     (Inl TypeError, \<lparr>subjects = [0, 1], metadatas = [Some 0, None, Some 1]\<rparr>)"
  by code_simp

text \<open>
  Claim C6, as stated, fails for a list whose entities depend on each other in a cycle:
  \<open>sort\<close> throws for direction \<open>delete\<close> too, and the junction subject of the list is
  placed nowhere.
\<close>

theorem junctions_of_cyclic_schema_not_placed:
  "filter (isJunction cyclic_schema) [0, 2, 1] = [2] \<and>
   sorted_subjects cyclic_schema [0, 2, 1] Delete = Inl (CyclicDependency ''B'')"
  by code_simp

text \<open>
  Claim C6, amended. Whenever \<open>sort\<close> returns for direction \<open>delete\<close>, and it does
  when each subject carries a metadata and neither dependency graph of the subjects has
  a cycle, its result starts with the junction subjects of the input (those with neither
  \<open>entity\<close> nor \<open>databaseEntity\<close>) in their original order, and no junction subject
  follows them. For direction \<open>insert\<close> the step is not performed: the outcome does not
  depend on \<open>entity\<close> or \<open>databaseEntity\<close> at all, only on the metadata of each
  subject.
\<close>

theorem junction_first_on_delete:
  "(sorted_subjects objs subjs Delete = Inr res \<longrightarrow>
      (\<exists>rest. res = filter (isJunction objs) subjs @ rest \<and>
         (\<forall>s\<in>set rest. \<not> isJunction objs s))) \<and>
   ((\<forall>s\<in>set subjs. metadata (subjectAt objs s) \<noteq> None) \<and>
    (\<forall>x. (x, x) \<notin> (set (nonNullableGraph objs subjs))\<^sup>+) \<and>
    (\<forall>x. (x, x) \<notin> (set (fullGraph objs subjs))\<^sup>+) \<longrightarrow>
      (\<exists>res'. sorted_subjects objs subjs Delete = Inr res')) \<and>
   (metadataAt objs' = metadataAt objs \<and>
    (\<forall>s. metadata (subjectAt objs' s) = metadata (subjectAt objs s)) \<longrightarrow>
      sorted_subjects objs' subjs Insert = sorted_subjects objs subjs Insert)"
proof (intro conjI impI)
  assume "sorted_subjects objs subjs Delete = Inr res"
  from sorted_subjects_Delete [OF this] obtain rest where
    rest: "res = filter (isJunction objs) subjs @ rest"
      "mset rest = mset (filter (\<lambda>s. \<not> isJunction objs s) subjs)"
    by blast
  from rest(2) have "set rest = set (filter (\<lambda>s. \<not> isJunction objs s) subjs)"
    by (rule mset_eq_setD)
  then have "\<forall>s\<in>set rest. \<not> isJunction objs s" by simp
  with rest(1) show "\<exists>rest. res = filter (isJunction objs) subjs @ rest \<and>
         (\<forall>s\<in>set rest. \<not> isJunction objs s)" by blast
next
  assume "(\<forall>s\<in>set subjs. metadata (subjectAt objs s) \<noteq> None) \<and>
    (\<forall>x. (x, x) \<notin> (set (nonNullableGraph objs subjs))\<^sup>+) \<and>
    (\<forall>x. (x, x) \<notin> (set (fullGraph objs subjs))\<^sup>+)"
  then show "\<exists>res'. sorted_subjects objs subjs Delete = Inr res'"
    using sorted_subjects_returns [of subjs objs Delete] by blast
next
  assume "metadataAt objs' = metadataAt objs \<and>
    (\<forall>s. metadata (subjectAt objs' s) = metadata (subjectAt objs s))"
  then show "sorted_subjects objs' subjs Insert = sorted_subjects objs subjs Insert"
    using sorted_subjects_Insert_ignores_entities by blast
qed

theorem junction_first_on_delete_witness:
  "list_all (\<lambda>s. metadata (subjectAt dependent_schema s) \<noteq> None) [0, 2, 1, 3] \<and>
   sorted_subjects dependent_schema [0, 2, 1, 3] Delete = Inr [2, 3, 0, 1] \<and>
   filter (isJunction dependent_schema) [0, 2, 1, 3] = [2, 3] \<and>
   filter (isJunction dependent_schema) [0, 1] = [] \<and>
   set (nonNullableGraph dependent_schema [0, 2, 1, 3]) = {(''A'', ''B'')} \<and>
   set (fullGraph dependent_schema [0, 2, 1, 3]) = {(''A'', ''B'')} \<and>
   sorted_subjects dependent_schema [0, 2, 1, 3] Insert = Inr [1, 3, 0, 2] \<and>
   sorted_subjects dependent_schema_with_entities [0, 2, 1, 3] Insert = Inr [1, 3, 0, 2]"
proof -
  have del: "sorted_subjects dependent_schema [0, 2, 1, 3] Delete = Inr [2, 3, 0, 1]"
    by code_simp
  have ins: "sorted_subjects dependent_schema [0, 2, 1, 3] Insert = Inr [1, 3, 0, 2]"
    by code_simp
  have same: "metadataAt dependent_schema_with_entities = metadataAt dependent_schema \<and>
     (\<forall>s. metadata (subjectAt dependent_schema_with_entities s) =
          metadata (subjectAt dependent_schema s))"
    by (simp add: dependent_schema_with_entities_def dependent_schema_def)
  have js: "filter (isJunction dependent_schema) [0, 2, 1, 3] = [2, 3]"
     "filter (isJunction dependent_schema) [0, 1] = []"
    by (simp_all add: isJunction_def dependent_schema_def)
  have graphs: "set (nonNullableGraph dependent_schema [0, 2, 1, 3]) = {(''A'', ''B'')}"
    "set (fullGraph dependent_schema [0, 2, 1, 3]) = {(''A'', ''B'')}"
    by code_simp+
  have acyclic: "(\<forall>x. (x, x) \<notin> (set (nonNullableGraph dependent_schema [0, 2, 1, 3]))\<^sup>+) \<and>
    (\<forall>x. (x, x) \<notin> (set (fullGraph dependent_schema [0, 2, 1, 3]))\<^sup>+)"
    using single_edge_acyclic [of _ "''A''" "''B''"] graphs by simp
  have carried: "\<forall>s\<in>set [0, 2, 1, 3]. metadata (subjectAt dependent_schema s) \<noteq> None"
    by (simp add: dependent_schema_def)
  from junction_first_on_delete [of dependent_schema "[0, 2, 1, 3]" "[2, 3, 0, 1]"
      dependent_schema_with_entities]
    del ins same js graphs acyclic carried
  show ?thesis by (simp add: list_all_iff)
qed

subsection \<open>The caller's array\<close>

text \<open>The first \<open>sort\<close> on a new sorter returns what \<open>sorted_subjects\<close> says.\<close>

lemma sort_in_memory_new_sorter:
  assumes "new_sorter objs mem caller = (this, mem')"
    and "sort_in_memory objs mem' this direction = (outcome, mem'')"
  shows "case outcome of
           Inl e \<Rightarrow> sorted_subjects objs (mem ! caller) direction = Inl e
         | Inr a \<Rightarrow> a < length mem'' \<and> sorted_subjects objs (mem ! caller) direction = Inr (mem'' ! a)"
proof -
  from assms(1) have new: "this = \<lparr>subjects_array = length mem,
      metadatas_of = getUniqueMetadatas objs (mem ! caller)\<rparr>"
    and mem': "mem' = mem @ [mem ! caller]"
    by (auto simp: new_sorter_def)
  have sorter: "\<lparr>subjects = mem' ! subjects_array this, metadatas = metadatas_of this\<rparr> =
      constructor objs (mem ! caller)"
    by (simp add: new mem' constructor_def)
  obtain r this' where run: "sort_subjects objs (constructor objs (mem ! caller)) direction = (r, this')"
    by (cases "sort_subjects objs (constructor objs (mem ! caller)) direction")
  then have r: "sorted_subjects objs (mem ! caller) direction = r"
    by (simp add: sorted_subjects_def)
  show ?thesis
  proof (cases r)
    case (Inl e)
    with assms(2) run sorter have "outcome = Inl e"
      by (auto simp: sort_in_memory_def Let_def)
    with r Inl show ?thesis by simp
  next
    case (Inr res)
    show ?thesis
    proof (cases "metadatas_of this = []")
      case True
      then have "metadatas (constructor objs (mem ! caller)) = []"
        by (simp add: new constructor_def)
      with run Inr have "res = mem ! caller" "this' = constructor objs (mem ! caller)"
        by (auto simp: sort_subjects_def constructor_def)
      with assms(2) run sorter Inr True
      have "outcome = Inr (length mem)" "mem'' = mem @ [mem ! caller]"
        by (auto simp: sort_in_memory_def Let_def new mem' constructor_def)
      with r Inr \<open>res = mem ! caller\<close> show ?thesis by simp
    next
      case False
      with assms(2) run sorter Inr
      have "outcome = Inr (Suc (length mem))" "mem'' = (mem @ [subjects this']) @ [res]"
        by (auto simp: sort_in_memory_def Let_def new mem')
      with r Inr show ?thesis by (simp add: nth_append)
    qed
  qed
qed

lemma sort_in_memory_length:
  "length mem \<le> length (snd (sort_in_memory objs mem this direction))"
  by (simp add: sort_in_memory_def Let_def split: prod.splits sum.splits)

lemma sort_in_memory_frame:
  assumes "a < length mem" and "a \<noteq> subjects_array this"
  shows "snd (sort_in_memory objs mem this direction) ! a = mem ! a"
  using assms
  by (simp add: sort_in_memory_def Let_def nth_append split: prod.splits sum.splits)

lemma sort_repeatedly_frame:
  assumes "a < length mem" and "a \<noteq> subjects_array this"
  shows "sort_repeatedly objs mem this directions ! a = mem ! a"
  using assms
proof (induction directions arbitrary: mem)
  case Nil
  then show ?case by simp
next
  case (Cons d ds)
  let ?mem' = "snd (sort_in_memory objs mem this d)"
  have "a < length ?mem'"
    using Cons.prems(1) sort_in_memory_length [of mem objs this d] by simp
  from Cons.IH [OF this Cons.prems(2)] sort_in_memory_frame [OF Cons.prems]
  show ?case by simp
qed

text \<open>
  Claim C9. The constructor copies the array it is given, and \<open>sort\<close> splices the copy
  only: after any number of \<open>sort\<close> calls on the sorter, in any directions, returning or
  throwing, the caller's array holds the same elements at the same positions as before
  the sorter was built.
\<close>

theorem sort_leaves_callers_array:
  assumes "caller < length mem"
    and "new_sorter objs mem caller = (this, mem')"
  shows "sort_repeatedly objs mem' this directions ! caller = mem ! caller"
proof -
  from assms(2) have own: "subjects_array this = length mem" and mem': "mem' = mem @ [mem ! caller]"
    by (auto simp: new_sorter_def)
  from assms(1) own have "caller \<noteq> subjects_array this" by simp
  moreover from assms(1) mem' have "caller < length mem'" by simp
  ultimately have "sort_repeatedly objs mem' this directions ! caller = mem' ! caller"
    by (rule sort_repeatedly_frame [rotated])
  with assms(1) mem' show ?thesis by (simp add: nth_append)
qed

theorem sort_leaves_callers_array_witness:
  "(0::nat) < length [[0, 2, 1, 3 :: nat]] \<and>
   new_sorter dependent_schema [[0, 2, 1, 3]] 0 =
     (\<lparr>subjects_array = 1, metadatas_of = [Some 0, Some 1]\<rparr>, [[0, 2, 1, 3], [0, 2, 1, 3]]) \<and>
   sort_repeatedly dependent_schema [[0, 2, 1, 3], [0, 2, 1, 3]]
     \<lparr>subjects_array = 1, metadatas_of = [Some 0, Some 1]\<rparr> [Delete, Insert] ! 0 = [0, 2, 1, 3]"
proof -
  have new: "new_sorter dependent_schema [[0, 2, 1, 3]] 0 =
     (\<lparr>subjects_array = 1, metadatas_of = [Some 0, Some 1]\<rparr>, [[0, 2, 1, 3], [0, 2, 1, 3]])"
    by code_simp
  have len: "(0::nat) < length [[0, 2, 1, 3 :: nat]]" by simp
  from sort_leaves_callers_array [OF len new, of "[Delete, Insert]"] new len
  show ?thesis by simp
qed

section \<open>Properties of the cache\<close>

subsection \<open>What a call does, by its key\<close>

lemma getFromCache_no_key:
  "\<not> truthy (js_or (identifier options) (query options)) \<Longrightarrow>
   getFromCache JSON_parse this options = (Resolved None, this)"
  by (simp add: getFromCache_def)

lemma storeInCache_no_key:
  "\<not> truthy (js_or (identifier options) (query options)) \<Longrightarrow>
   storeInCache JSON_stringify this options savedCache = (Resolved (), this)"
  by (simp add: storeInCache_def)

lemma getFromCache_key:
  assumes "js_or (identifier options) (query options) = Some key" and "key \<noteq> []"
  shows "snd (getFromCache JSON_parse this options) =
           this\<lparr>client := (client this)\<lparr>commands := commands (client this) @ [GET key]\<rparr>\<rparr>"
    and "fst (getFromCache JSON_parse this options) =
           (case failing (client this) of
              Some err \<Rightarrow> Rejected (ClientError err)
            | None \<Rightarrow>
                (case entries (client this) key of
                   None \<Rightarrow> Resolved None
                 | Some text \<Rightarrow>
                     if text = [] then Resolved None
                     else (case JSON_parse text of
                             Some doc \<Rightarrow> Resolved (Some doc)
                           | None \<Rightarrow> if isRedis5OrHigher this then Rejected SyntaxError
                                     else Unsettled SyntaxError)))"
  using assms
  by (auto simp: getFromCache_def truthy_def client_get_def Let_def split: option.splits)

lemma storeInCache_key:
  assumes "js_or (identifier options) (query options) = Some key" and "key \<noteq> []"
  shows "storeInCache JSON_stringify this options savedCache =
           (case failing (client this) of
              Some err \<Rightarrow>
                (Rejected (ClientError err),
                 this\<lparr>client := (client this)\<lparr>commands := commands (client this) @
                    [SET key (JSON_stringify options) (duration options)]\<rparr>\<rparr>)
            | None \<Rightarrow>
                (Resolved (),
                 this\<lparr>client := (client this)\<lparr>entries := (entries (client this))
                      (key \<mapsto> JSON_stringify options),
                    commands := commands (client this) @
                      [SET key (JSON_stringify options) (duration options)]\<rparr>\<rparr>))"
  using assms
  by (auto simp: storeInCache_def truthy_def client_set_def Let_def split: option.splits)

lemma isRedis5OrHigher_client [simp]:
  "isRedis5OrHigher (this\<lparr>client := c\<rparr>) = isRedis5OrHigher this"
  by (simp add: isRedis5OrHigher_def)

lemma commands_sent_append [simp]:
  "commands_sent this (this\<lparr>client := (client this)\<lparr>commands := commands (client this) @ cs\<rparr>\<rparr>) = cs"
  "commands_sent this (this\<lparr>client := (client this)\<lparr>entries := es, commands := commands (client this) @ cs\<rparr>\<rparr>) = cs"
  "commands_sent this this = []"
  by (simp_all add: commands_sent_def)

lemma commands_sent_getFromCache:
  "commands_sent this (snd (getFromCache JSON_parse this options)) =
     (case js_or (identifier options) (query options) of
        None \<Rightarrow> []
      | Some key \<Rightarrow> if key = [] then [] else [GET key])"
proof (cases "js_or (identifier options) (query options)")
  case None
  then show ?thesis by (simp add: getFromCache_no_key truthy_def)
next
  case (Some key)
  then show ?thesis
    by (cases "key = []") (simp_all add: getFromCache_no_key getFromCache_key(1) truthy_def)
qed

lemma commands_sent_storeInCache:
  "commands_sent this (snd (storeInCache JSON_stringify this options savedCache)) =
     (case js_or (identifier options) (query options) of
        None \<Rightarrow> []
      | Some key \<Rightarrow>
          if key = [] then [] else [SET key (JSON_stringify options) (duration options)])"
proof (cases "js_or (identifier options) (query options)")
  case None
  then show ?thesis by (simp add: storeInCache_no_key truthy_def)
next
  case (Some key)
  then show ?thesis
    by (cases "key = []")
       (simp_all add: storeInCache_no_key storeInCache_key truthy_def split: option.splits)
qed

lemma js_or_present: "i \<noteq> [] \<Longrightarrow> js_or (Some i) q = Some i"
  by (simp add: js_or_def truthy_def)

lemma js_or_absent: "js_or None q = q" "js_or (Some []) q = q"
  by (simp_all add: js_or_def truthy_def)

subsection \<open>A stored text that is not JSON\<close>

text \<open>
  Claim C7, as stated, fails for the empty text, which is not JSON: the result of \<open>get\<close>
  is tested for truthiness before it is parsed, so an empty stored text resolves to
  absent on both client generations, even with a parser that rejects every text.
\<close>

theorem empty_text_resolves_absent:
  "fst (getFromCache (\<lambda>text. None :: unit option) (cache_holding 5 ''Q1'' '''') (by_query ''Q1''))
     = Resolved None \<and>
   fst (getFromCache (\<lambda>text. None :: unit option) (cache_holding 3 ''Q1'' '''') (by_query ''Q1''))
     = Resolved None"
  by (simp add: getFromCache_def cache_holding_def by_query_def js_or_def truthy_def
      client_get_def isRedis5OrHigher_def)

text \<open>
  Claim C7, amended. For a stored text that is not empty and that \<open>JSON.parse\<close> rejects,
  \<open>getFromCache\<close> never resolves to absent, and on the promise-based client (Redis 5 and
  higher) the promise is rejected with the parse error; an empty stored text resolves
  to absent.
\<close>

theorem malformed_text_is_no_miss:
  assumes "js_or (identifier options) (query options) = Some key" and "key \<noteq> []"
    and "failing (client this) = None"
    and "entries (client this) key = Some text"
    and "JSON_parse text = None"
  shows "(text \<noteq> [] \<longrightarrow>
            fst (getFromCache JSON_parse this options) \<noteq> Resolved None \<and>
            (isRedis5OrHigher this \<longrightarrow>
               fst (getFromCache JSON_parse this options) = Rejected SyntaxError)) \<and>
         (text = [] \<longrightarrow> fst (getFromCache JSON_parse this options) = Resolved None)"
  using assms by (simp add: getFromCache_key(2))

theorem malformed_text_is_no_miss_witness:
  "js_or (identifier (by_query ''Q1'')) (query (by_query ''Q1'')) = Some ''Q1'' \<and>
   failing (client (cache_holding 5 ''Q1'' ''{'')) = None \<and>
   entries (client (cache_holding 5 ''Q1'' ''{'')) ''Q1'' = Some ''{'' \<and>
   isRedis5OrHigher (cache_holding 5 ''Q1'' ''{'') \<and>
   fst (getFromCache (\<lambda>text. None :: unit option) (cache_holding 5 ''Q1'' ''{'') (by_query ''Q1''))
     = Rejected SyntaxError"
proof -
  have k: "js_or (identifier (by_query ''Q1'')) (query (by_query ''Q1'')) = Some ''Q1''"
    by (simp add: by_query_def js_or_def truthy_def)
  have f: "failing (client (cache_holding 5 ''Q1'' ''{'')) = None"
    and e: "entries (client (cache_holding 5 ''Q1'' ''{'')) ''Q1'' = Some ''{''"
    and v: "isRedis5OrHigher (cache_holding 5 ''Q1'' ''{'')"
    by (simp_all add: cache_holding_def isRedis5OrHigher_def)
  have p: "(\<lambda>text. None :: unit option) ''{'' = None" by simp
  have n: "''Q1'' \<noteq> []" by simp
  from malformed_text_is_no_miss [OF k n f e p] k f e v show ?thesis by simp
qed

text \<open>
  On the callback-based client the parse error is thrown inside the callback the client
  calls, after the check of \<open>err\<close>: neither \<open>ok\<close> nor \<open>fail\<close> is called.
\<close>

lemma malformed_text_callback_path:
  assumes "js_or (identifier options) (query options) = Some key" and "key \<noteq> []"
    and "failing (client this) = None"
    and "entries (client this) key = Some text" and "text \<noteq> []"
    and "JSON_parse text = None"
    and "\<not> isRedis5OrHigher this"
  shows "fst (getFromCache JSON_parse this options) = Unsettled SyntaxError"
  using assms by (simp add: getFromCache_key(2))

subsection \<open>The cache key\<close>

text \<open>
  Claim C8, as stated, fails in its last part: identifiers and query texts share one key
  space, so the entry stored under identifier \<open>id1\<close> is what a lookup with the query text
  \<open>id1\<close> and no identifier returns, on both client generations.
\<close>

theorem identifier_entry_found_by_query_text:
  "fst (getFromCache sample_parse
          (snd (storeInCache sample_stringify (empty_cache 5) entry_id1 entry_id1))
          (by_query ''id1'')) = Resolved (Some ''identifier=id1;query=Q2'') \<and>
   fst (getFromCache sample_parse
          (snd (storeInCache sample_stringify (empty_cache 3) entry_id1 entry_id1))
          (by_query ''id1'')) = Resolved (Some ''identifier=id1;query=Q2'')"
  by (simp add: getFromCache_def storeInCache_def empty_cache_def entry_id1_def by_query_def
      js_or_def truthy_def client_get_def client_set_def isRedis5OrHigher_def
      sample_stringify_def sample_parse_def Let_def)

text \<open>
  Claim C8, amended. \<open>getFromCache\<close> and \<open>storeInCache\<close> use \<open>options.identifier\<close> as
  the key when it is a non-empty string, and \<open>options.query\<close> when the identifier is
  absent; when both are absent, \<open>getFromCache\<close> resolves to absent, \<open>storeInCache\<close>
  resolves, and neither sends a command nor fails, whatever the state of the client. An
  entry stored under an identifier does not change what a lookup by a different query
  text alone returns.
\<close>

theorem cache_key_selection:
  fixes options lookup :: "'r QueryResultCacheOptions"
  shows
    "(identifier options = Some i \<and> i \<noteq> [] \<longrightarrow>
        commands_sent this (snd (getFromCache JSON_parse this options)) = [GET i] \<and>
        commands_sent this (snd (storeInCache JSON_stringify this options savedCache)) =
          [SET i (JSON_stringify options) (duration options)]) \<and>
     (identifier options = None \<and> query options = Some q \<and> q \<noteq> [] \<longrightarrow>
        commands_sent this (snd (getFromCache JSON_parse this options)) = [GET q] \<and>
        commands_sent this (snd (storeInCache JSON_stringify this options savedCache)) =
          [SET q (JSON_stringify options) (duration options)]) \<and>
     (identifier options = None \<and> query options = None \<longrightarrow>
        getFromCache JSON_parse this options = (Resolved None, this) \<and>
        storeInCache JSON_stringify this options savedCache = (Resolved (), this)) \<and>
     (identifier options = Some i \<and> i \<noteq> [] \<and>
      identifier lookup = None \<and> query lookup = Some q \<and> q \<noteq> i \<longrightarrow>
        fst (getFromCache JSON_parse
               (snd (storeInCache JSON_stringify this options savedCache)) lookup) =
        fst (getFromCache JSON_parse this lookup))"
proof (intro conjI impI)
  assume "identifier options = Some i \<and> i \<noteq> []"
  then have "js_or (identifier options) (query options) = Some i" "i \<noteq> []"
    by (simp_all add: js_or_present)
  then show "commands_sent this (snd (getFromCache JSON_parse this options)) = [GET i]"
    and "commands_sent this (snd (storeInCache JSON_stringify this options savedCache)) =
          [SET i (JSON_stringify options) (duration options)]"
    by (simp_all add: commands_sent_getFromCache commands_sent_storeInCache)
next
  assume "identifier options = None \<and> query options = Some q \<and> q \<noteq> []"
  then have "js_or (identifier options) (query options) = Some q" "q \<noteq> []"
    by (simp_all add: js_or_absent)
  then show "commands_sent this (snd (getFromCache JSON_parse this options)) = [GET q]"
    and "commands_sent this (snd (storeInCache JSON_stringify this options savedCache)) =
          [SET q (JSON_stringify options) (duration options)]"
    by (simp_all add: commands_sent_getFromCache commands_sent_storeInCache)
next
  assume "identifier options = None \<and> query options = None"
  then have "\<not> truthy (js_or (identifier options) (query options))"
    by (simp add: js_or_absent truthy_def)
  then show "getFromCache JSON_parse this options = (Resolved None, this)"
    and "storeInCache JSON_stringify this options savedCache = (Resolved (), this)"
    by (simp_all add: getFromCache_no_key storeInCache_no_key)
next
  assume a: "identifier options = Some i \<and> i \<noteq> [] \<and>
      identifier lookup = None \<and> query lookup = Some q \<and> q \<noteq> i"
  then have store: "js_or (identifier options) (query options) = Some i" "i \<noteq> []"
    by (simp_all add: js_or_present)
  from a have look: "js_or (identifier lookup) (query lookup) = Some q"
    by (simp add: js_or_absent)
  let ?this' = "snd (storeInCache JSON_stringify this options savedCache)"
  show "fst (getFromCache JSON_parse ?this' lookup) = fst (getFromCache JSON_parse this lookup)"
  proof (cases "q = []")
    case True
    with look have "\<not> truthy (js_or (identifier lookup) (query lookup))"
      by (simp add: truthy_def)
    then show ?thesis by (simp add: getFromCache_no_key)
  next
    case False
    from a have "q \<noteq> i" by simp
    then show ?thesis
      by (simp add: getFromCache_key(2) [OF look False] storeInCache_key [OF store]
          split: option.splits)
  qed
qed

theorem cache_key_selection_witness:
  "identifier entry_id1 = Some ''id1'' \<and>
   commands_sent (empty_cache 5) (snd (getFromCache sample_parse (empty_cache 5) entry_id1)) =
     [GET ''id1''] \<and>
   commands_sent (empty_cache 5)
     (snd (storeInCache sample_stringify (empty_cache 5) entry_id1 entry_id1)) =
     [SET ''id1'' ''identifier=id1;query=Q2'' 60000] \<and>
   identifier (by_query ''Q2'') = None \<and> query (by_query ''Q2'') = Some ''Q2'' \<and>
   commands_sent (empty_cache 5) (snd (getFromCache sample_parse (empty_cache 5) (by_query ''Q2''))) =
     [GET ''Q2''] \<and>
   getFromCache sample_parse (empty_cache 5) ((by_query ''Q2'')\<lparr>query := None\<rparr>) =
     (Resolved None, empty_cache 5) \<and>
   storeInCache sample_stringify (empty_cache 5) ((by_query ''Q2'')\<lparr>query := None\<rparr>) entry_id1 =
     (Resolved (), empty_cache 5) \<and>
   fst (getFromCache sample_parse
          (snd (storeInCache sample_stringify (empty_cache 5) entry_id1 entry_id1))
          (by_query ''Q2'')) = Resolved None"
proof -
  have i: "identifier entry_id1 = Some ''id1'' \<and> ''id1'' \<noteq> []"
    by (simp add: entry_id1_def)
  have q: "identifier (by_query ''Q2'') = None \<and> query (by_query ''Q2'') = Some ''Q2'' \<and> ''Q2'' \<noteq> []"
    by (simp add: by_query_def)
  have n: "identifier ((by_query ''Q2'')\<lparr>query := None\<rparr>) = None \<and>
           query ((by_query ''Q2'')\<lparr>query := None\<rparr>) = None"
    by (simp add: by_query_def)
  have l: "identifier entry_id1 = Some ''id1'' \<and> ''id1'' \<noteq> [] \<and>
      identifier (by_query ''Q2'') = None \<and> query (by_query ''Q2'') = Some ''Q2'' \<and> ''Q2'' \<noteq> ''id1''"
    by (simp add: entry_id1_def by_query_def)
  have before: "fst (getFromCache sample_parse (empty_cache 5) (by_query ''Q2'')) = Resolved None"
    by (simp add: getFromCache_def empty_cache_def by_query_def js_or_def truthy_def
        client_get_def isRedis5OrHigher_def)
  have s: "sample_stringify entry_id1 = ''identifier=id1;query=Q2''" "duration entry_id1 = 60000"
    by (simp_all add: sample_stringify_def entry_id1_def)
  note a = cache_key_selection [of entry_id1 "''id1''" "empty_cache 5" sample_parse
        sample_stringify entry_id1 "''Q2''" "by_query ''Q2''"]
  note b = cache_key_selection [of "by_query ''Q2''" "''id1''" "empty_cache 5" sample_parse
        sample_stringify entry_id1 "''Q2''" "by_query ''Q2''"]
  note c = cache_key_selection [of "(by_query ''Q2'')\<lparr>query := None\<rparr>" "''id1''" "empty_cache 5"
        sample_parse sample_stringify entry_id1 "''Q2''" "by_query ''Q2''"]
  from a b c i q n l before s show ?thesis by simp
qed

subsection \<open>The empty identifier\<close>

text \<open>
  Claim C10. With the empty string as identifier, \<open>getFromCache\<close> and \<open>storeInCache\<close>
  do what they do without an identifier: the key is \<open>options.query\<close> (the only difference
  is that the text \<open>storeInCache\<close> serialises is that of the options it was given), no
  command is sent with the empty key, and with no query either the call resolves without
  sending a command.
\<close>

theorem empty_identifier_is_absent:
  fixes options :: "'r QueryResultCacheOptions"
  shows
    "getFromCache JSON_parse this (options\<lparr>identifier := Some []\<rparr>) =
       getFromCache JSON_parse this (options\<lparr>identifier := None\<rparr>) \<and>
     storeInCache JSON_stringify this (options\<lparr>identifier := Some []\<rparr>) savedCache =
       storeInCache (\<lambda>_. JSON_stringify (options\<lparr>identifier := Some []\<rparr>)) this
         (options\<lparr>identifier := None\<rparr>) savedCache \<and>
     commands_sent this (snd (getFromCache JSON_parse this (options\<lparr>identifier := Some []\<rparr>))) =
       (case query options of
          None \<Rightarrow> []
        | Some q \<Rightarrow> if q = [] then [] else [GET q]) \<and>
     commands_sent this
        (snd (storeInCache JSON_stringify this (options\<lparr>identifier := Some []\<rparr>) savedCache)) =
       (case query options of
          None \<Rightarrow> []
        | Some q \<Rightarrow>
            if q = [] then []
            else [SET q (JSON_stringify (options\<lparr>identifier := Some []\<rparr>)) (duration options)]) \<and>
     (query options = None \<longrightarrow>
        getFromCache JSON_parse this (options\<lparr>identifier := Some []\<rparr>) = (Resolved None, this) \<and>
        storeInCache JSON_stringify this (options\<lparr>identifier := Some []\<rparr>) savedCache =
          (Resolved (), this))"
proof (intro conjI impI)
  show "getFromCache JSON_parse this (options\<lparr>identifier := Some []\<rparr>) =
       getFromCache JSON_parse this (options\<lparr>identifier := None\<rparr>)"
    by (simp add: getFromCache_def js_or_absent Let_def)
  show "storeInCache JSON_stringify this (options\<lparr>identifier := Some []\<rparr>) savedCache =
       storeInCache (\<lambda>_. JSON_stringify (options\<lparr>identifier := Some []\<rparr>)) this
         (options\<lparr>identifier := None\<rparr>) savedCache"
    by (simp add: storeInCache_def js_or_absent Let_def)
  show "commands_sent this (snd (getFromCache JSON_parse this (options\<lparr>identifier := Some []\<rparr>))) =
       (case query options of
          None \<Rightarrow> []
        | Some q \<Rightarrow> if q = [] then [] else [GET q])"
    by (simp add: commands_sent_getFromCache js_or_absent)
  show "commands_sent this
        (snd (storeInCache JSON_stringify this (options\<lparr>identifier := Some []\<rparr>) savedCache)) =
       (case query options of
          None \<Rightarrow> []
        | Some q \<Rightarrow>
            if q = [] then []
            else [SET q (JSON_stringify (options\<lparr>identifier := Some []\<rparr>)) (duration options)])"
    by (simp add: commands_sent_storeInCache js_or_absent split: option.splits)
next
  assume "query options = None"
  then have "\<not> truthy (js_or (identifier (options\<lparr>identifier := Some []\<rparr>))
      (query (options\<lparr>identifier := Some []\<rparr>)))"
    by (simp add: js_or_absent truthy_def)
  then show "getFromCache JSON_parse this (options\<lparr>identifier := Some []\<rparr>) = (Resolved None, this)"
    and "storeInCache JSON_stringify this (options\<lparr>identifier := Some []\<rparr>) savedCache =
          (Resolved (), this)"
    by (rule getFromCache_no_key, rule storeInCache_no_key)
qed

theorem empty_identifier_is_absent_witness:
  "query ((by_query ''Q2'')\<lparr>query := None\<rparr>) = None \<and>
   getFromCache sample_parse (empty_cache 5) ((by_query ''Q2'')\<lparr>query := None, identifier := Some []\<rparr>) =
     (Resolved None, empty_cache 5) \<and>
   storeInCache sample_stringify (empty_cache 5)
       ((by_query ''Q2'')\<lparr>query := None, identifier := Some []\<rparr>) entry_id1 =
     (Resolved (), empty_cache 5) \<and>
   commands_sent (empty_cache 5)
     (snd (storeInCache sample_stringify (empty_cache 5)
        ((by_query ''Q2'')\<lparr>identifier := Some []\<rparr>) entry_id1)) =
     [SET ''Q2'' ''identifier=;query=Q2'' 0]"
proof -
  have n: "query ((by_query ''Q2'')\<lparr>query := None\<rparr>) = None"
    by (simp add: by_query_def)
  have s: "sample_stringify ((by_query ''Q2'')\<lparr>identifier := Some []\<rparr>) = ''identifier=;query=Q2''"
    "query (by_query ''Q2'') = Some ''Q2''" "duration (by_query ''Q2'') = 0"
    by (simp_all add: sample_stringify_def by_query_def)
  note a = empty_identifier_is_absent [of sample_parse "empty_cache 5"
      "(by_query ''Q2'')\<lparr>query := None\<rparr>" sample_stringify entry_id1]
  note b = empty_identifier_is_absent [of sample_parse "empty_cache 5"
      "by_query ''Q2''" sample_stringify entry_id1]
  from a n have noop:
    "getFromCache sample_parse (empty_cache 5)
       ((by_query ''Q2'')\<lparr>query := None, identifier := Some []\<rparr>) = (Resolved None, empty_cache 5)"
    "storeInCache sample_stringify (empty_cache 5)
       ((by_query ''Q2'')\<lparr>query := None, identifier := Some []\<rparr>) entry_id1 =
     (Resolved (), empty_cache 5)"
    by blast+
  from b have "commands_sent (empty_cache 5)
     (snd (storeInCache sample_stringify (empty_cache 5)
        ((by_query ''Q2'')\<lparr>identifier := Some []\<rparr>) entry_id1)) =
     (case query (by_query ''Q2'') of
          None \<Rightarrow> []
        | Some q \<Rightarrow>
            if q = [] then []
            else [SET q (sample_stringify ((by_query ''Q2'')\<lparr>identifier := Some []\<rparr>))
                    (duration (by_query ''Q2''))])"
    by blast
  with noop n s show ?thesis by simp
qed

end
